theory Spec2Isabelle
  imports Main
begin

section \<open>Values of the search: Python integers together with the two float infinities\<close>

text \<open>
  The search compares the integers returned by \<open>evaluate\<close> with \<open>float('-inf')\<close> and
  \<open>float('inf')\<close>. Python compares an integer with an infinite float exactly, so the
  values form the integers extended by a least and a greatest element.
\<close>

datatype xint = NegInf | Fin int | PosInf

instantiation xint :: linorder
begin

fun less_eq_xint :: "xint \<Rightarrow> xint \<Rightarrow> bool" where
  "less_eq_xint NegInf y = True"
| "less_eq_xint (Fin a) NegInf = False"
| "less_eq_xint (Fin a) (Fin b) = (a \<le> b)"
| "less_eq_xint (Fin a) PosInf = True"
| "less_eq_xint PosInf NegInf = False"
| "less_eq_xint PosInf (Fin b) = False"
| "less_eq_xint PosInf PosInf = True"

definition less_xint :: "xint \<Rightarrow> xint \<Rightarrow> bool" where
  "less_xint x y = (x \<le> y \<and> \<not> y \<le> x)"

instance
proof
  fix x y z :: xint
  show "(x < y) = (x \<le> y \<and> \<not> y \<le> x)"
    by (simp add: less_xint_def)
  show "x \<le> x"
    by (cases x) simp_all
  show "x \<le> y \<Longrightarrow> y \<le> z \<Longrightarrow> x \<le> z"
    by (cases x; cases y; cases z) simp_all
  show "x \<le> y \<Longrightarrow> y \<le> x \<Longrightarrow> x = y"
    by (cases x; cases y) simp_all
  show "x \<le> y \<or> y \<le> x"
    by (cases x; cases y) auto
qed

end

section \<open>Game logic and data structures\<close>

datatype Player = HUMAN | COMPUTER

record GameState =
  current_number :: int
  human_score :: int
  computer_score :: int
  current_player :: Player

definition is_terminal :: "GameState \<Rightarrow> bool" where
  "is_terminal state = (current_number state \<ge> 1200)"

definition evaluate :: "GameState \<Rightarrow> int" where
  "evaluate state =
     (if is_terminal state then
        (if human_score state > computer_score state then - 999999
         else if computer_score state > human_score state then 999999
         else 0)
      else computer_score state - human_score state)"

text \<open>
  The body of the \<open>for multiplier in [2, 3, 4]\<close> loop of \<open>get_successors\<close>: the copy
  of the state, updated field by field in the order of the source.
\<close>

definition make_child :: "GameState \<Rightarrow> int \<Rightarrow> GameState" where
  "make_child state multiplier =
     (let child = state;
          new_number = current_number child * multiplier;
          child = child\<lparr>current_number := new_number\<rparr>;
          child =
            (if new_number mod 2 = 0 then
               (if current_player child = HUMAN
                then child\<lparr>computer_score := computer_score child - 1\<rparr>
                else child\<lparr>human_score := human_score child - 1\<rparr>)
             else
               (if current_player child = HUMAN
                then child\<lparr>human_score := human_score child + 1\<rparr>
                else child\<lparr>computer_score := computer_score child + 1\<rparr>));
          child =
            (if new_number < 1200 then
               (if current_player child = HUMAN
                then child\<lparr>current_player := COMPUTER\<rparr>
                else child\<lparr>current_player := HUMAN\<rparr>)
             else child)
      in child)"

definition get_successors :: "GameState \<Rightarrow> (int \<times> GameState) list" where
  "get_successors state =
     (if is_terminal state then []
      else map (\<lambda>multiplier. (multiplier, make_child state multiplier)) [2, 3, 4])"

section \<open>Minimax and alpha-beta\<close>

text \<open>
  A search returns the pair (value, move) and leaves the global counter
  \<open>NODES_VISITED\<close> updated; the counter is threaded through as the last argument and
  the last component of the result. The recursion of the source is bounded by \<open>depth\<close>
  only when \<open>depth\<close> is not negative, so the model recurses on a fuel argument that
  bounds the depth of the call stack; \<open>None\<close> means that the recursion did not bottom
  out within the fuel.
\<close>

type_synonym search_result = "(xint \<times> int option) \<times> int"

fun minimax_max_loop ::
  "(GameState \<Rightarrow> int \<Rightarrow> search_result option) \<Rightarrow> (int \<times> GameState) list \<Rightarrow>
   xint \<Rightarrow> int option \<Rightarrow> int \<Rightarrow> search_result option" where
  "minimax_max_loop rec [] best_value best_move nv = Some ((best_value, best_move), nv)"
| "minimax_max_loop rec ((move, child_state) # rest) best_value best_move nv =
     (case rec child_state nv of
        None \<Rightarrow> None
      | Some ((val, _), nv') \<Rightarrow>
          if val > best_value
          then minimax_max_loop rec rest val (Some move) nv'
          else minimax_max_loop rec rest best_value best_move nv')"

fun minimax_min_loop ::
  "(GameState \<Rightarrow> int \<Rightarrow> search_result option) \<Rightarrow> (int \<times> GameState) list \<Rightarrow>
   xint \<Rightarrow> int option \<Rightarrow> int \<Rightarrow> search_result option" where
  "minimax_min_loop rec [] best_value best_move nv = Some ((best_value, best_move), nv)"
| "minimax_min_loop rec ((move, child_state) # rest) best_value best_move nv =
     (case rec child_state nv of
        None \<Rightarrow> None
      | Some ((val, _), nv') \<Rightarrow>
          if val < best_value
          then minimax_min_loop rec rest val (Some move) nv'
          else minimax_min_loop rec rest best_value best_move nv')"

fun minimax :: "nat \<Rightarrow> GameState \<Rightarrow> int \<Rightarrow> bool \<Rightarrow> int \<Rightarrow> search_result option" where
  "minimax 0 state depth maximizing_player nv = None"
| "minimax (Suc fuel) state depth maximizing_player nv =
     (let nv = nv + 1 in
      if depth = 0 \<or> is_terminal state then Some ((Fin (evaluate state), None), nv)
      else if maximizing_player then
        minimax_max_loop (\<lambda>child_state. minimax fuel child_state (depth - 1) False)
          (get_successors state) NegInf None nv
      else
        minimax_min_loop (\<lambda>child_state. minimax fuel child_state (depth - 1) True)
          (get_successors state) PosInf None nv)"

fun alpha_beta_max_loop ::
  "(GameState \<Rightarrow> xint \<Rightarrow> xint \<Rightarrow> int \<Rightarrow> search_result option) \<Rightarrow> (int \<times> GameState) list \<Rightarrow>
   xint \<Rightarrow> xint \<Rightarrow> xint \<Rightarrow> int option \<Rightarrow> int \<Rightarrow> search_result option" where
  "alpha_beta_max_loop rec [] alpha beta best_value best_move nv =
     Some ((best_value, best_move), nv)"
| "alpha_beta_max_loop rec ((move, child_state) # rest) alpha beta best_value best_move nv =
     (case rec child_state alpha beta nv of
        None \<Rightarrow> None
      | Some ((val, _), nv') \<Rightarrow>
          let (best_value, best_move) =
                (if val > best_value then (val, Some move) else (best_value, best_move));
              alpha = max alpha best_value
          in if alpha \<ge> beta then Some ((best_value, best_move), nv')
             else alpha_beta_max_loop rec rest alpha beta best_value best_move nv')"

fun alpha_beta_min_loop ::
  "(GameState \<Rightarrow> xint \<Rightarrow> xint \<Rightarrow> int \<Rightarrow> search_result option) \<Rightarrow> (int \<times> GameState) list \<Rightarrow>
   xint \<Rightarrow> xint \<Rightarrow> xint \<Rightarrow> int option \<Rightarrow> int \<Rightarrow> search_result option" where
  "alpha_beta_min_loop rec [] alpha beta best_value best_move nv =
     Some ((best_value, best_move), nv)"
| "alpha_beta_min_loop rec ((move, child_state) # rest) alpha beta best_value best_move nv =
     (case rec child_state alpha beta nv of
        None \<Rightarrow> None
      | Some ((val, _), nv') \<Rightarrow>
          let (best_value, best_move) =
                (if val < best_value then (val, Some move) else (best_value, best_move));
              beta = min beta best_value
          in if beta \<le> alpha then Some ((best_value, best_move), nv')
             else alpha_beta_min_loop rec rest alpha beta best_value best_move nv')"

fun alpha_beta ::
  "nat \<Rightarrow> GameState \<Rightarrow> int \<Rightarrow> xint \<Rightarrow> xint \<Rightarrow> bool \<Rightarrow> int \<Rightarrow> search_result option" where
  "alpha_beta 0 state depth alpha beta maximizing_player nv = None"
| "alpha_beta (Suc fuel) state depth alpha beta maximizing_player nv =
     (let nv = nv + 1 in
      if depth = 0 \<or> is_terminal state then Some ((Fin (evaluate state), None), nv)
      else if maximizing_player then
        alpha_beta_max_loop (\<lambda>child_state a b. alpha_beta fuel child_state (depth - 1) a b False)
          (get_successors state) alpha beta NegInf None nv
      else
        alpha_beta_min_loop (\<lambda>child_state a b. alpha_beta fuel child_state (depth - 1) a b True)
          (get_successors state) alpha beta PosInf None nv)"

text \<open>
  \<open>computer_move\<close> returns the move only; the counter is whatever the search left.
\<close>

definition computer_move ::
  "nat \<Rightarrow> GameState \<Rightarrow> string \<Rightarrow> int \<Rightarrow> int \<Rightarrow> (int option \<times> int) option" where
  "computer_move fuel state algorithm depth nv =
     (if algorithm = ''Minimax''
      then map_option (\<lambda>((_, move), nv'). (move, nv')) (minimax fuel state depth True nv)
      else map_option (\<lambda>((_, move), nv'). (move, nv'))
             (alpha_beta fuel state depth NegInf PosInf True nv))"

section \<open>The part of the GUI that changes the game\<close>

text \<open>
  Of \<open>GameGUI\<close> only the fields that the game logic reads and writes are kept: the
  state of a started game, the \<open>game_over\<close> flag and the chosen algorithm.
\<close>

record GameGUI =
  state :: GameState
  game_over :: bool
  algorithm :: string

definition apply_move :: "GameGUI \<Rightarrow> int \<Rightarrow> GameGUI" where
  "apply_move self multiplier =
     (let new_number = current_number (state self) * multiplier;
          st = state self;
          st =
            (if new_number mod 2 = 0 then
               (if current_player st = HUMAN
                then st\<lparr>computer_score := computer_score st - 1\<rparr>
                else st\<lparr>human_score := human_score st - 1\<rparr>)
             else
               (if current_player st = HUMAN
                then st\<lparr>human_score := human_score st + 1\<rparr>
                else st\<lparr>computer_score := computer_score st + 1\<rparr>));
          st = st\<lparr>current_number := new_number\<rparr>
      in if new_number \<ge> 1200 then self\<lparr>state := st, game_over := True\<rparr>
         else if current_player st = HUMAN
              then self\<lparr>state := st\<lparr>current_player := COMPUTER\<rparr>\<rparr>
              else self\<lparr>state := st\<lparr>current_player := HUMAN\<rparr>\<rparr>)"




section \<open>Predicates used to state the transition rules\<close>

text \<open>
  The mover of a transition is the \<open>current_player\<close> of the state it starts from.
  \<open>scoring_rule s c\<close> says that going from \<open>s\<close> to \<open>c\<close> applied the parity rule,
  \<open>turn_rule s m c\<close> that the move \<open>m\<close> from \<open>s\<close> to \<open>c\<close> multiplied the number by
  \<open>m\<close> and applied the turn rule to the product.
\<close>

definition opponent :: "Player \<Rightarrow> Player" where
  "opponent p = (if p = HUMAN then COMPUTER else HUMAN)"

definition score_of :: "Player \<Rightarrow> GameState \<Rightarrow> int" where
  "score_of p s = (if p = HUMAN then human_score s else computer_score s)"

definition scoring_rule :: "GameState \<Rightarrow> GameState \<Rightarrow> bool" where
  "scoring_rule s c =
     (let mover = current_player s; opp = opponent mover in
      if current_number c mod 2 = 0
      then score_of opp c = score_of opp s - 1 \<and> score_of mover c = score_of mover s
      else score_of mover c = score_of mover s + 1 \<and> score_of opp c = score_of opp s)"

definition turn_rule :: "GameState \<Rightarrow> int \<Rightarrow> GameState \<Rightarrow> bool" where
  "turn_rule s m c =
     (current_number c = current_number s * m \<and>
      (if current_number s * m \<ge> 1200
       then is_terminal c \<and> current_player c = current_player s
       else \<not> is_terminal c \<and> current_player c = opponent (current_player s)))"

text \<open>
  The states of a game: it starts with a number from 8 to 18 and both scores zero, and
  every move goes to a successor listed by \<open>get_successors\<close>.
\<close>

inductive reachable :: "GameState \<Rightarrow> bool" where
  start: "8 \<le> n \<Longrightarrow> n \<le> 18 \<Longrightarrow>
    reachable \<lparr>current_number = n, human_score = 0, computer_score = 0, current_player = p\<rparr>"
| step: "reachable s \<Longrightarrow> (m, c) \<in> set (get_successors s) \<Longrightarrow> reachable c"

text \<open>
  \<open>bump k\<close> adds \<open>k\<close> to the counter of a result. \<open>minimax_score\<close> is the value
  that minimax returns for a state, read off a run that starts with the counter at zero.
\<close>

definition bump :: "int \<Rightarrow> search_result option \<Rightarrow> search_result option" where
  "bump k r = map_option (\<lambda>(x, n). (x, n + k)) r"

definition score_of_result :: "search_result option \<Rightarrow> xint option" where
  "score_of_result r = map_option (\<lambda>((v, _), _). v) r"

definition minimax_score :: "nat \<Rightarrow> GameState \<Rightarrow> int \<Rightarrow> bool \<Rightarrow> xint option" where
  "minimax_score fuel s depth mp = score_of_result (minimax fuel s depth mp 0)"

text \<open>
  \<open>first_greatest ys m v\<close>: in the list \<open>ys\<close> of moves with their values, \<open>(m, v)\<close>
  is the first entry whose value is the greatest; every entry before it is strictly
  smaller and every entry after it is at most \<open>v\<close>. \<open>first_smallest\<close> is its mirror
  image.
\<close>

fun first_greatest :: "(int \<times> xint) list \<Rightarrow> int \<Rightarrow> xint \<Rightarrow> bool" where
  "first_greatest [] m v = False"
| "first_greatest ((m', w) # ys) m v =
     (if w < v then first_greatest ys m v
      else m' = m \<and> w = v \<and> (\<forall>(m'', u) \<in> set ys. u \<le> v))"

fun first_smallest :: "(int \<times> xint) list \<Rightarrow> int \<Rightarrow> xint \<Rightarrow> bool" where
  "first_smallest [] m v = False"
| "first_smallest ((m', w) # ys) m v =
     (if w > v then first_smallest ys m v
      else m' = m \<and> w = v \<and> (\<forall>(m'', u) \<in> set ys. u \<ge> v))"

text \<open>
  \<open>fail_soft alpha beta v r\<close>: what a search with the window from \<open>alpha\<close> to
  \<open>beta\<close> may return as \<open>r\<close> when the value without pruning is \<open>v\<close>. Inside the
  window it is the value itself, at or below \<open>alpha\<close> a bound between the value and
  \<open>alpha\<close>, at or above \<open>beta\<close> a bound between \<open>beta\<close> and the value.
\<close>

definition fail_soft :: "xint \<Rightarrow> xint \<Rightarrow> xint \<Rightarrow> xint \<Rightarrow> bool" where
  "fail_soft alpha beta v r =
     ((v \<le> alpha \<longrightarrow> v \<le> r \<and> r \<le> alpha) \<and>
      (alpha < v \<and> v < beta \<longrightarrow> r = v) \<and>
      (beta \<le> v \<longrightarrow> beta \<le> r \<and> r \<le> v))"






section \<open>Transitions\<close>

lemma make_child_number: "current_number (make_child s m) = current_number s * m"
  by (simp add: make_child_def Let_def)

lemma make_child_scoring: "scoring_rule s (make_child s m)"
  by (cases "current_player s") (simp_all add: make_child_def scoring_rule_def Let_def score_of_def opponent_def)

lemma make_child_magnitude:
  "\<bar>human_score (make_child s m) - human_score s\<bar> + \<bar>computer_score (make_child s m) - computer_score s\<bar> = 1"
  by (simp add: make_child_def Let_def)

lemma make_child_turn: "turn_rule s m (make_child s m)"
  by (cases "current_player s") (simp_all add: make_child_def turn_rule_def Let_def is_terminal_def opponent_def)

lemma in_get_successors:
  "(m, c) \<in> set (get_successors s) \<longleftrightarrow> \<not> is_terminal s \<and> m \<in> {2, 3, 4} \<and> c = make_child s m"
  by (auto simp add: get_successors_def)

lemma apply_move_state: "state (apply_move g m) = make_child (state g) m"
  by (cases "current_player (state g)") (simp_all add: apply_move_def make_child_def Let_def)

lemma apply_move_game_over: "game_over (apply_move g m) = (game_over g \<or> current_number (state g) * m \<ge> 1200)"
  by (simp add: apply_move_def Let_def)

text \<open>
  C2: a state whose number is below 1200 has exactly three successors, one for each of
  the multipliers 2, 3 and 4 in this order, and the number of each successor is the
  number of the state times its multiplier; a state whose number is at least 1200 has
  no successor.
\<close>

theorem get_successors_three:
  "(\<not> is_terminal s \<longrightarrow>
      length (get_successors s) = 3 \<and> map fst (get_successors s) = [2, 3, 4] \<and>
      (\<forall>(m, c) \<in> set (get_successors s). current_number c = current_number s * m)) \<and>
   (is_terminal s \<longrightarrow> get_successors s = []) \<and>
   (is_terminal s \<longleftrightarrow> current_number s \<ge> 1200)"
  by (auto simp add: get_successors_def is_terminal_def make_child_number)

theorem get_successors_three_witness:
  "\<not> is_terminal \<lparr>current_number = 8, human_score = 0, computer_score = 0, current_player = HUMAN\<rparr> \<and>
   get_successors \<lparr>current_number = 8, human_score = 0, computer_score = 0, current_player = HUMAN\<rparr> =
     [(2, \<lparr>current_number = 16, human_score = 0, computer_score = - 1, current_player = COMPUTER\<rparr>),
      (3, \<lparr>current_number = 24, human_score = 0, computer_score = - 1, current_player = COMPUTER\<rparr>),
      (4, \<lparr>current_number = 32, human_score = 0, computer_score = - 1, current_player = COMPUTER\<rparr>)] \<and>
   is_terminal \<lparr>current_number = 1200, human_score = 2, computer_score = - 3, current_player = HUMAN\<rparr> \<and>
   get_successors \<lparr>current_number = 1200, human_score = 2, computer_score = - 3, current_player = HUMAN\<rparr> = []"
proof -
  let ?s = "\<lparr>current_number = 8, human_score = 0, computer_score = 0, current_player = HUMAN\<rparr>"
  let ?t = "\<lparr>current_number = 1200, human_score = 2, computer_score = - 3, current_player = HUMAN\<rparr>"
  have n: "\<not> is_terminal ?s" and t: "is_terminal ?t"
    by (simp_all add: is_terminal_def)
  have "length (get_successors ?s) = 3"
    using get_successors_three [of ?s] n by blast
  moreover have "get_successors ?t = []"
    using get_successors_three [of ?t] t by blast
  ultimately show ?thesis
    using n t by (simp add: get_successors_def make_child_def)
qed

text \<open>
  C3: every successor listed by \<open>get_successors\<close> and every step of \<open>apply_move\<close>
  applies exactly one scoring rule, chosen by the parity of the new number: an even
  number takes one point from the opponent of the mover, an odd number gives one point
  to the mover, and the other score stays as it was, so the two scores move by 1 in total.
\<close>

theorem scoring_rule_every_transition:
  "(\<forall>(m, c) \<in> set (get_successors s).
      current_number c = current_number s * m \<and> scoring_rule s c \<and>
      \<bar>human_score c - human_score s\<bar> + \<bar>computer_score c - computer_score s\<bar> = 1) \<and>
   (current_number (state (apply_move g k)) = current_number (state g) * k \<and>
    scoring_rule (state g) (state (apply_move g k)) \<and>
    \<bar>human_score (state (apply_move g k)) - human_score (state g)\<bar> +
    \<bar>computer_score (state (apply_move g k)) - computer_score (state g)\<bar> = 1)"
  by (auto simp add: in_get_successors apply_move_state make_child_number make_child_scoring
        make_child_magnitude)

theorem scoring_rule_every_transition_witness:
  "(3, \<lparr>current_number = 24, human_score = 0, computer_score = - 1, current_player = COMPUTER\<rparr>)
     \<in> set (get_successors \<lparr>current_number = 8, human_score = 0, computer_score = 0, current_player = HUMAN\<rparr>) \<and>
   scoring_rule \<lparr>current_number = 8, human_score = 0, computer_score = 0, current_player = HUMAN\<rparr>
     \<lparr>current_number = 24, human_score = 0, computer_score = - 1, current_player = COMPUTER\<rparr> \<and>
   (3, \<lparr>current_number = 27, human_score = 5, computer_score = 3, current_player = HUMAN\<rparr>)
     \<in> set (get_successors \<lparr>current_number = 9, human_score = 5, computer_score = 2, current_player = COMPUTER\<rparr>) \<and>
   scoring_rule \<lparr>current_number = 9, human_score = 5, computer_score = 2, current_player = COMPUTER\<rparr>
     \<lparr>current_number = 27, human_score = 5, computer_score = 3, current_player = HUMAN\<rparr>"
proof -
  let ?s = "\<lparr>current_number = 8, human_score = 0, computer_score = 0, current_player = HUMAN\<rparr>"
  let ?c = "\<lparr>current_number = 24, human_score = 0, computer_score = - 1, current_player = COMPUTER\<rparr>"
  let ?s' = "\<lparr>current_number = 9, human_score = 5, computer_score = 2, current_player = COMPUTER\<rparr>"
  let ?c' = "\<lparr>current_number = 27, human_score = 5, computer_score = 3, current_player = HUMAN\<rparr>"
  have m: "(3, ?c) \<in> set (get_successors ?s)" and m': "(3, ?c') \<in> set (get_successors ?s')"
    by (simp_all add: get_successors_def is_terminal_def make_child_def)
  from m scoring_rule_every_transition [of ?s] have "scoring_rule ?s ?c"
    by blast
  moreover from m' scoring_rule_every_transition [of ?s'] have "scoring_rule ?s' ?c'"
    by blast
  ultimately show ?thesis
    using m m' by simp
qed

text \<open>
  C5: on a terminal state \<open>evaluate\<close> is -999999 when the human leads, 999999 when the
  computer leads and 0 on a tie; on any other state it is the computer's score minus the
  human's.
\<close>

theorem evaluate_spec:
  "(is_terminal s \<and> human_score s > computer_score s \<longrightarrow> evaluate s = - 999999) \<and>
   (is_terminal s \<and> computer_score s > human_score s \<longrightarrow> evaluate s = 999999) \<and>
   (is_terminal s \<and> computer_score s = human_score s \<longrightarrow> evaluate s = 0) \<and>
   (\<not> is_terminal s \<longrightarrow> evaluate s = computer_score s - human_score s)"
  by (simp add: evaluate_def)

theorem evaluate_spec_witness:
  "evaluate \<lparr>current_number = 1200, human_score = 1, computer_score = 0, current_player = HUMAN\<rparr> = - 999999 \<and>
   evaluate \<lparr>current_number = 1536, human_score = - 2, computer_score = - 1, current_player = COMPUTER\<rparr> = 999999 \<and>
   evaluate \<lparr>current_number = 2000, human_score = - 3, computer_score = - 3, current_player = HUMAN\<rparr> = 0 \<and>
   evaluate \<lparr>current_number = 1199, human_score = - 3, computer_score = 4, current_player = HUMAN\<rparr> = 7"
proof -
  have "evaluate \<lparr>current_number = 1200, human_score = 1, computer_score = 0, current_player = HUMAN\<rparr> = - 999999"
    using evaluate_spec [of "\<lparr>current_number = 1200, human_score = 1, computer_score = 0, current_player = HUMAN\<rparr>"]
    by (simp add: is_terminal_def)
  moreover have "evaluate \<lparr>current_number = 1536, human_score = - 2, computer_score = - 1, current_player = COMPUTER\<rparr> = 999999"
    using evaluate_spec [of "\<lparr>current_number = 1536, human_score = - 2, computer_score = - 1, current_player = COMPUTER\<rparr>"]
    by (simp add: is_terminal_def)
  moreover have "evaluate \<lparr>current_number = 2000, human_score = - 3, computer_score = - 3, current_player = HUMAN\<rparr> = 0"
    using evaluate_spec [of "\<lparr>current_number = 2000, human_score = - 3, computer_score = - 3, current_player = HUMAN\<rparr>"]
    by (simp add: is_terminal_def)
  moreover have "evaluate \<lparr>current_number = 1199, human_score = - 3, computer_score = 4, current_player = HUMAN\<rparr> = 7"
    using evaluate_spec [of "\<lparr>current_number = 1199, human_score = - 3, computer_score = 4, current_player = HUMAN\<rparr>"]
    by (simp add: is_terminal_def)
  ultimately show ?thesis by blast
qed

text \<open>
  C6: every transition, whether listed by \<open>get_successors\<close> or made by \<open>apply_move\<close>,
  multiplies the number by its multiplier; when the product reaches 1200 the new state is
  terminal and \<open>current_player\<close> stays with the mover, otherwise the state is not terminal
  and the turn passes to the other player. A state that is not terminal has a successor
  for each of 2, 3 and 4, and \<open>apply_move\<close> sets \<open>game_over\<close> exactly when the product
  reaches 1200. From the number 600 the move 2 gives the terminal number 1200 with the
  player unchanged.
\<close>

theorem turn_rule_every_transition:
  "(\<forall>(m, c) \<in> set (get_successors s). turn_rule s m c) \<and>
   (\<not> is_terminal s \<longrightarrow> (\<forall>m \<in> {2, 3, 4}. \<exists>c. map_of (get_successors s) m = Some c)) \<and>
   turn_rule (state g) k (state (apply_move g k)) \<and>
   game_over (apply_move g k) = (game_over g \<or> current_number (state g) * k \<ge> 1200) \<and>
   (current_number s = 600 \<longrightarrow>
      (\<exists>c. map_of (get_successors s) 2 = Some c \<and> current_number c = 1200 \<and> is_terminal c \<and>
           current_player c = current_player s)) \<and>
   (current_number (state g) = 600 \<longrightarrow>
      current_number (state (apply_move g 2)) = 1200 \<and> is_terminal (state (apply_move g 2)) \<and>
      game_over (apply_move g 2) \<and>
      current_player (state (apply_move g 2)) = current_player (state g))"
proof -
  have a: "\<forall>(m, c) \<in> set (get_successors s). turn_rule s m c"
    by (auto simp add: in_get_successors make_child_turn)
  have e: "\<not> is_terminal s \<longrightarrow> (\<forall>m \<in> {2, 3, 4}. \<exists>c. map_of (get_successors s) m = Some c)"
    by (simp add: get_successors_def)
  have b: "turn_rule (state g) k (state (apply_move g k))"
    by (simp add: apply_move_state make_child_turn)
  have c: "current_player (make_child x 2) = current_player x \<and> is_terminal (make_child x 2)"
    if "current_number x = 600" for x
    using that make_child_turn [of x 2] by (simp add: turn_rule_def)
  have d: "map_of (get_successors s) 2 = Some (make_child s 2)" if "current_number s = 600"
    using that by (simp add: get_successors_def is_terminal_def)
  show ?thesis
    using a e b c [of s] c [of "state g"] d
    by (simp add: apply_move_state make_child_number apply_move_game_over)
qed

theorem turn_rule_every_transition_witness:
  "map_of (get_successors \<lparr>current_number = 600, human_score = 0, computer_score = - 1, current_player = HUMAN\<rparr>) 2
     = Some \<lparr>current_number = 1200, human_score = 0, computer_score = - 2, current_player = HUMAN\<rparr> \<and>
   turn_rule \<lparr>current_number = 600, human_score = 0, computer_score = - 1, current_player = HUMAN\<rparr> 2
     \<lparr>current_number = 1200, human_score = 0, computer_score = - 2, current_player = HUMAN\<rparr> \<and>
   (2, \<lparr>current_number = 16, human_score = - 1, computer_score = 0, current_player = HUMAN\<rparr>)
     \<in> set (get_successors \<lparr>current_number = 8, human_score = 0, computer_score = 0, current_player = COMPUTER\<rparr>) \<and>
   turn_rule \<lparr>current_number = 8, human_score = 0, computer_score = 0, current_player = COMPUTER\<rparr> 2
     \<lparr>current_number = 16, human_score = - 1, computer_score = 0, current_player = HUMAN\<rparr> \<and>
   apply_move \<lparr>state = \<lparr>current_number = 8, human_score = 0, computer_score = 0, current_player = HUMAN\<rparr>,
               game_over = False, algorithm = ''Minimax''\<rparr> 3
     = \<lparr>state = \<lparr>current_number = 24, human_score = 0, computer_score = - 1, current_player = COMPUTER\<rparr>,
        game_over = False, algorithm = ''Minimax''\<rparr> \<and>
   turn_rule \<lparr>current_number = 8, human_score = 0, computer_score = 0, current_player = HUMAN\<rparr> 3
     \<lparr>current_number = 24, human_score = 0, computer_score = - 1, current_player = COMPUTER\<rparr> \<and>
   apply_move \<lparr>state = \<lparr>current_number = 600, human_score = 0, computer_score = - 1, current_player = HUMAN\<rparr>,
               game_over = False, algorithm = ''Minimax''\<rparr> 2
     = \<lparr>state = \<lparr>current_number = 1200, human_score = 0, computer_score = - 2, current_player = HUMAN\<rparr>,
        game_over = True, algorithm = ''Minimax''\<rparr>"
proof -
  let ?s = "\<lparr>current_number = 600, human_score = 0, computer_score = - 1, current_player = HUMAN\<rparr>"
  let ?c = "\<lparr>current_number = 1200, human_score = 0, computer_score = - 2, current_player = HUMAN\<rparr>"
  let ?s' = "\<lparr>current_number = 8, human_score = 0, computer_score = 0, current_player = COMPUTER\<rparr>"
  let ?c' = "\<lparr>current_number = 16, human_score = - 1, computer_score = 0, current_player = HUMAN\<rparr>"
  let ?h = "\<lparr>current_number = 8, human_score = 0, computer_score = 0, current_player = HUMAN\<rparr>"
  let ?h' = "\<lparr>current_number = 24, human_score = 0, computer_score = - 1, current_player = COMPUTER\<rparr>"
  let ?g = "\<lparr>state = ?h, game_over = False, algorithm = ''Minimax''\<rparr>"
  let ?e = "\<lparr>state = ?s, game_over = False, algorithm = ''Minimax''\<rparr>"
  have m: "map_of (get_successors ?s) 2 = Some ?c" and m': "(2, ?c') \<in> set (get_successors ?s')"
    by (simp_all add: get_successors_def is_terminal_def make_child_def)
  then have "(2, ?c) \<in> set (get_successors ?s)"
    by (simp add: map_of_SomeD)
  with turn_rule_every_transition [of ?s] have t1: "turn_rule ?s 2 ?c"
    by blast
  from m' turn_rule_every_transition [of ?s'] have t2: "turn_rule ?s' 2 ?c'"
    by blast
  have g: "apply_move ?g 3 = \<lparr>state = ?h', game_over = False, algorithm = ''Minimax''\<rparr>"
    and e: "apply_move ?e 2 = \<lparr>state = ?c, game_over = True, algorithm = ''Minimax''\<rparr>"
    by (simp_all add: apply_move_def)
  from turn_rule_every_transition [of _ ?g 3] have "turn_rule (state ?g) 3 (state (apply_move ?g 3))"
    by blast
  with g have t3: "turn_rule ?h 3 ?h'"
    by simp
  from m m' t1 t2 t3 g e show ?thesis
    by blast
qed

section \<open>Termination of the search\<close>

lemma minimax_max_loop_returns:
  "\<forall>c \<in> snd ` set xs. \<forall>n. rec c n \<noteq> None \<Longrightarrow> minimax_max_loop rec xs bv bm nv \<noteq> None"
  by (induction xs arbitrary: bv bm nv) (auto split: option.splits)

lemma minimax_min_loop_returns:
  "\<forall>c \<in> snd ` set xs. \<forall>n. rec c n \<noteq> None \<Longrightarrow> minimax_min_loop rec xs bv bm nv \<noteq> None"
  by (induction xs arbitrary: bv bm nv) (auto split: option.splits)

lemma alpha_beta_max_loop_returns:
  "\<forall>c \<in> snd ` set xs. \<forall>a b n. rec c a b n \<noteq> None \<Longrightarrow>
   alpha_beta_max_loop rec xs alpha beta bv bm nv \<noteq> None"
  by (induction xs arbitrary: alpha bv bm nv) (auto split: option.splits simp add: Let_def)

lemma alpha_beta_min_loop_returns:
  "\<forall>c \<in> snd ` set xs. \<forall>a b n. rec c a b n \<noteq> None \<Longrightarrow>
   alpha_beta_min_loop rec xs alpha beta bv bm nv \<noteq> None"
  by (induction xs arbitrary: beta bv bm nv) (auto split: option.splits simp add: Let_def)

lemma successor_greater:
  assumes "0 < current_number s" and "(m, c) \<in> set (get_successors s)"
  shows "current_number s < current_number c"
  using assms by (auto simp add: in_get_successors make_child_number)

text \<open>The number of steps that a positive number below 1200 can still make.\<close>

lemma successor_budget:
  assumes "0 < current_number s" and "(m, c) \<in> set (get_successors s)"
    and "nat (1200 - current_number s) < Suc fuel"
  shows "0 < current_number c \<and> nat (1200 - current_number c) < fuel"
proof -
  from assms(2) have "current_number s < 1200"
    by (simp add: in_get_successors is_terminal_def)
  moreover from assms(1,2) have "current_number s < current_number c"
    by (rule successor_greater)
  ultimately show ?thesis
    using assms(1,3) by linarith
qed

lemma minimax_returns_number:
  "0 < current_number s \<Longrightarrow> nat (1200 - current_number s) < fuel \<Longrightarrow>
   minimax fuel s depth mp nv \<noteq> None"
proof (induction fuel arbitrary: s depth mp nv)
  case 0
  then show ?case by simp
next
  case (Suc fuel)
  have "minimax fuel c d p n \<noteq> None" if "(m, c) \<in> set (get_successors s)" for m c d p n
    using successor_budget [OF Suc.prems(1) that Suc.prems(2)] by (simp add: Suc.IH)
  then have "\<forall>c \<in> snd ` set (get_successors s). \<forall>n. minimax fuel c d p n \<noteq> None" for d p
    by fastforce
  from minimax_max_loop_returns [OF this] minimax_min_loop_returns [OF this] show ?case
    by (auto simp add: Let_def)
qed

lemma alpha_beta_returns_number:
  "0 < current_number s \<Longrightarrow> nat (1200 - current_number s) < fuel \<Longrightarrow>
   alpha_beta fuel s depth alpha beta mp nv \<noteq> None"
proof (induction fuel arbitrary: s depth alpha beta mp nv)
  case 0
  then show ?case by simp
next
  case (Suc fuel)
  have "alpha_beta fuel c d a b p n \<noteq> None" if "(m, c) \<in> set (get_successors s)" for m c d a b p n
    using successor_budget [OF Suc.prems(1) that Suc.prems(2)] by (simp add: Suc.IH)
  then have "\<forall>c \<in> snd ` set (get_successors s). \<forall>a b n. alpha_beta fuel c d a b p n \<noteq> None" for d p
    by fastforce
  from alpha_beta_max_loop_returns [OF this] alpha_beta_min_loop_returns [OF this] show ?case
    by (auto simp add: Let_def)
qed

lemma minimax_returns_depth:
  "0 \<le> depth \<Longrightarrow> nat depth < fuel \<Longrightarrow> minimax fuel s depth mp nv \<noteq> None"
proof (induction fuel arbitrary: s depth mp nv)
  case 0
  then show ?case by simp
next
  case (Suc fuel)
  show ?case
  proof (cases "depth = 0")
    case True
    then show ?thesis by simp
  next
    case False
    with Suc.prems have "0 \<le> depth - 1" "nat (depth - 1) < fuel"
      by linarith+
    then have "minimax fuel c (depth - 1) p n \<noteq> None" for c p n
      by (rule Suc.IH)
    then have "\<forall>c \<in> snd ` set (get_successors s). \<forall>n. minimax fuel c (depth - 1) p n \<noteq> None" for p
      by simp
    from minimax_max_loop_returns [OF this] minimax_min_loop_returns [OF this] show ?thesis
      by (auto simp add: Let_def)
  qed
qed


text \<open>Without a positive number and with a negative depth the recursion never ends.\<close>

lemma minimax_no_return:
  "current_number s \<le> 0 \<Longrightarrow> depth < 0 \<Longrightarrow> minimax fuel s depth mp nv = None"
proof (induction fuel arbitrary: s depth mp nv)
  case 0
  show ?case by simp
next
  case (Suc fuel)
  from Suc.prems have c: "current_number (make_child s 2) \<le> 0" and d: "depth - 1 < 0"
    by (simp_all add: make_child_number)
  have "minimax fuel (make_child s 2) (depth - 1) p n = None" for p n
    using c d by (rule Suc.IH)
  with Suc.prems show ?case
    by (simp add: Let_def get_successors_def is_terminal_def)
qed

text \<open>
  C7: from a state with a positive number every successor has a strictly greater number,
  so the numbers grow along every line of play and every search from such a state
  returns, minimax as well as alpha-beta, at any depth and with any window: a call stack
  of 1200 minus the number, plus one, is enough.
\<close>

theorem search_terminates:
  "0 < current_number s \<Longrightarrow>
   (\<forall>(m, c) \<in> set (get_successors s). current_number s < current_number c) \<and>
   (\<forall>fuel depth mp nv. nat (1200 - current_number s) < fuel \<longrightarrow>
      minimax fuel s depth mp nv \<noteq> None) \<and>
   (\<forall>fuel depth alpha beta mp nv. nat (1200 - current_number s) < fuel \<longrightarrow>
      alpha_beta fuel s depth alpha beta mp nv \<noteq> None)"
  using successor_greater [of s] minimax_returns_number [of s] alpha_beta_returns_number [of s]
  by blast

theorem search_terminates_witness:
  "(0::int) < current_number \<lparr>current_number = 1199, human_score = 0, computer_score = 0, current_player = HUMAN\<rparr> \<and>
   (2, \<lparr>current_number = 2398, human_score = 0, computer_score = - 1, current_player = HUMAN\<rparr>)
     \<in> set (get_successors \<lparr>current_number = 1199, human_score = 0, computer_score = 0, current_player = HUMAN\<rparr>) \<and>
   (1199::int) < 2398 \<and>
   nat (1200 - current_number \<lparr>current_number = 1199, human_score = 0, computer_score = 0, current_player = HUMAN\<rparr>) < 2 \<and>
   minimax 2 \<lparr>current_number = 1199, human_score = 0, computer_score = 0, current_player = HUMAN\<rparr> (- 5) True 0 \<noteq> None \<and>
   alpha_beta 2 \<lparr>current_number = 1199, human_score = 0, computer_score = 0, current_player = HUMAN\<rparr> (- 5) NegInf PosInf True 0 \<noteq> None"
proof -
  let ?s = "\<lparr>current_number = 1199, human_score = 0, computer_score = 0, current_player = HUMAN\<rparr>"
  have p: "0 < current_number ?s" and f: "nat (1200 - current_number ?s) < 2"
    by simp_all
  have m: "(2, \<lparr>current_number = 2398, human_score = 0, computer_score = - 1, current_player = HUMAN\<rparr>)
     \<in> set (get_successors ?s)"
    by (simp add: get_successors_def is_terminal_def make_child_def)
  from search_terminates [OF p] f
  have "minimax 2 ?s (- 5) True 0 \<noteq> None" "alpha_beta 2 ?s (- 5) NegInf PosInf True 0 \<noteq> None"
    by blast+
  with p f m show ?thesis by simp
qed

section \<open>Terminal dominance\<close>

lemma make_child_difference:
  "\<bar>computer_score (make_child s m) - human_score (make_child s m)\<bar>
     \<le> \<bar>computer_score s - human_score s\<bar> + 1"
  by (auto simp add: make_child_def Let_def)

lemma reachable_number:
  "reachable s \<Longrightarrow>
   8 * 2 ^ nat \<bar>computer_score s - human_score s\<bar> \<le> current_number s \<and> current_number s \<le> 4796"
proof (induction rule: reachable.induct)
  case (start n p)
  then show ?case by simp
next
  case (step s m c)
  let ?d = "nat \<bar>computer_score s - human_score s\<bar>"
  let ?d' = "nat \<bar>computer_score c - human_score c\<bar>"
  from step.hyps(2) have c: "c = make_child s m" and m: "2 \<le> m" "m \<le> 4"
    and n: "current_number s < 1200"
    by (auto simp add: in_get_successors is_terminal_def)
  from step.IH have low: "8 * 2 ^ ?d \<le> current_number s"
    by simp
  then have pos: "0 < current_number s"
    by (smt (verit) zero_less_power)
  have "?d' \<le> Suc ?d"
    using make_child_difference [of s m] unfolding c by arith
  then have "(2::int) ^ ?d' \<le> 2 ^ Suc ?d"
    by (intro power_increasing) simp_all
  then have "8 * (2::int) ^ ?d' \<le> 2 * (8 * 2 ^ ?d)"
    by simp
  also have "\<dots> \<le> 2 * current_number s"
    using low by simp
  also have "\<dots> \<le> current_number s * m"
    using m(1) pos by (simp add: mult.commute mult_right_mono)
  finally have "8 * 2 ^ ?d' \<le> current_number c"
    by (simp add: c make_child_number)
  moreover have "current_number s * m \<le> 1199 * 4"
    using n m pos by (intro mult_mono) simp_all
  then have "current_number c \<le> 4796"
    by (simp add: c make_child_number)
  ultimately show ?case by simp
qed

lemma reachable_difference:
  assumes "reachable s"
  shows "\<bar>computer_score s - human_score s\<bar> \<le> 9"
proof (rule ccontr)
  assume "\<not> \<bar>computer_score s - human_score s\<bar> \<le> 9"
  then have "10 \<le> nat \<bar>computer_score s - human_score s\<bar>"
    by simp
  then have "(2::int) ^ 10 \<le> 2 ^ nat \<bar>computer_score s - human_score s\<bar>"
    by (intro power_increasing) simp_all
  with reachable_number [OF assms] show False
    by simp
qed

text \<open>
  C8: in every state of a game that started with a number from 8 to 18 and both scores
  zero, the difference of the scores is at most 9 in absolute value, hence strictly below
  999999; so the value of a state that is not terminal lies strictly between the two
  values -999999 and 999999 that \<open>evaluate\<close> gives to a lost and to a won terminal
  state.
\<close>

theorem terminal_dominance:
  "reachable s \<Longrightarrow>
   \<bar>computer_score s - human_score s\<bar> \<le> 9 \<and>
   \<bar>computer_score s - human_score s\<bar> < 999999 \<and>
   (\<not> is_terminal s \<longrightarrow> - 999999 < evaluate s \<and> evaluate s < 999999) \<and>
   (\<forall>t. is_terminal t \<longrightarrow>
      (human_score t > computer_score t \<longrightarrow> evaluate t = - 999999) \<and>
      (computer_score t > human_score t \<longrightarrow> evaluate t = 999999))"
  using reachable_difference [of s] by (auto simp add: evaluate_def)

theorem terminal_dominance_witness:
  "reachable \<lparr>current_number = 27, human_score = 0, computer_score = 1, current_player = HUMAN\<rparr> \<and>
   \<not> is_terminal \<lparr>current_number = 27, human_score = 0, computer_score = 1, current_player = HUMAN\<rparr> \<and>
   evaluate \<lparr>current_number = 27, human_score = 0, computer_score = 1, current_player = HUMAN\<rparr> = 1 \<and>
   (1::int) < 999999"
proof -
  let ?s = "\<lparr>current_number = 9, human_score = 0, computer_score = 0, current_player = COMPUTER\<rparr>"
  let ?c = "\<lparr>current_number = 27, human_score = 0, computer_score = 1, current_player = HUMAN\<rparr>"
  have "reachable ?s"
    by (rule reachable.start) simp_all
  moreover have "(3, ?c) \<in> set (get_successors ?s)"
    by (simp add: get_successors_def is_terminal_def make_child_def)
  ultimately have r: "reachable ?c"
    by (rule reachable.step)
  have n: "\<not> is_terminal ?c"
    by (simp add: is_terminal_def)
  from terminal_dominance [OF r] n have "evaluate ?c < 999999"
    by blast
  moreover have "evaluate ?c = 1"
    by (simp add: evaluate_def is_terminal_def)
  ultimately show ?thesis
    using r n by simp
qed

section \<open>The counter does not influence the search\<close>

lemma bump_simps [simp]:
  "bump k None = None"
  "bump k (Some ((v, mv), n)) = Some ((v, mv), n + k)"
  by (simp_all add: bump_def)

lemma bump_bump: "bump a (bump b r) = bump (a + b) r"
  by (cases r) (auto simp add: bump_def)

lemma bump_eq_Some: "bump k r = Some ((v, mv), n) \<longleftrightarrow> r = Some ((v, mv), n - k)"
  by (cases r) (auto simp add: bump_def)

lemma minimax_max_loop_bump:
  assumes "\<forall>c \<in> snd ` set xs. \<forall>n. rec c n = bump n (rec c 0)"
  shows "minimax_max_loop rec xs bv bm nv = bump nv (minimax_max_loop rec xs bv bm 0)"
  using assms
proof (induction xs arbitrary: bv bm nv)
  case Nil
  show ?case by simp
next
  case (Cons x xs)
  obtain m c where x: "x = (m, c)" by (cases x)
  have "c \<in> snd ` set (x # xs)" and sub: "snd ` set xs \<subseteq> snd ` set (x # xs)"
    using x by force+
  with Cons.prems have r: "rec c nv = bump nv (rec c 0)"
    by blast
  from Cons.prems sub have IH: "minimax_max_loop rec xs b bm' n = bump n (minimax_max_loop rec xs b bm' 0)" for b bm' n
    by (intro Cons.IH) blast
  show ?case
  proof (cases "rec c 0")
    case None
    with r x show ?thesis by simp
  next
    case (Some a)
    obtain v mv n0 where a: "a = ((v, mv), n0)" by (cases a) auto
    from Some a r have "rec c nv = Some ((v, mv), n0 + nv)" by simp
    with Some a x show ?thesis
      by (simp add: IH [of _ _ "n0 + nv"] IH [of _ _ n0] bump_bump add.commute)
  qed
qed

lemma minimax_min_loop_bump:
  assumes "\<forall>c \<in> snd ` set xs. \<forall>n. rec c n = bump n (rec c 0)"
  shows "minimax_min_loop rec xs bv bm nv = bump nv (minimax_min_loop rec xs bv bm 0)"
  using assms
proof (induction xs arbitrary: bv bm nv)
  case Nil
  show ?case by simp
next
  case (Cons x xs)
  obtain m c where x: "x = (m, c)" by (cases x)
  have "c \<in> snd ` set (x # xs)" and sub: "snd ` set xs \<subseteq> snd ` set (x # xs)"
    using x by force+
  with Cons.prems have r: "rec c nv = bump nv (rec c 0)"
    by blast
  from Cons.prems sub have IH: "minimax_min_loop rec xs b bm' n = bump n (minimax_min_loop rec xs b bm' 0)" for b bm' n
    by (intro Cons.IH) blast
  show ?case
  proof (cases "rec c 0")
    case None
    with r x show ?thesis by simp
  next
    case (Some a)
    obtain v mv n0 where a: "a = ((v, mv), n0)" by (cases a) auto
    from Some a r have "rec c nv = Some ((v, mv), n0 + nv)" by simp
    with Some a x show ?thesis
      by (simp add: IH [of _ _ "n0 + nv"] IH [of _ _ n0] bump_bump add.commute)
  qed
qed

lemma minimax_bump: "minimax fuel s depth mp nv = bump nv (minimax fuel s depth mp 0)"
proof (induction fuel arbitrary: s depth mp nv)
  case 0
  show ?case by simp
next
  case (Suc fuel)
  have r: "\<forall>c \<in> snd ` set xs. \<forall>n. minimax fuel c d p n = bump n (minimax fuel c d p 0)"
    for xs :: "(int \<times> GameState) list" and d p
    using Suc.IH by blast
  show ?case
    by (simp add: Let_def minimax_max_loop_bump [OF r, of _ _ _ _ _ "nv + 1"]
        minimax_max_loop_bump [OF r, of _ _ _ _ _ "1"]
        minimax_min_loop_bump [OF r, of _ _ _ _ _ "nv + 1"]
        minimax_min_loop_bump [OF r, of _ _ _ _ _ "1"] bump_bump)
qed

lemma minimax_score_eq:
  "minimax fuel s depth mp nv = Some ((v, mv), nv') \<Longrightarrow> minimax_score fuel s depth mp = Some v"
  by (subst (asm) minimax_bump) (simp add: bump_eq_Some minimax_score_def score_of_result_def)

section \<open>The choice made by minimax\<close>

lemma first_greatest_iff:
  "first_greatest ys m v \<longleftrightarrow>
   (\<exists>pre post. ys = pre @ (m, v) # post \<and> (\<forall>(m', w) \<in> set pre. w < v) \<and>
      (\<forall>(m', w) \<in> set post. w \<le> v))"
proof (induction ys)
  case Nil
  show ?case by simp
next
  case (Cons y ys)
  obtain m' w where y: "y = (m', w)" by (cases y)
  show ?case
  proof (cases "w < v")
    case True
    have "(\<exists>pre post. (m', w) # ys = pre @ (m, v) # post \<and> (\<forall>(m', w) \<in> set pre. w < v) \<and>
            (\<forall>(m', w) \<in> set post. w \<le> v)) \<longleftrightarrow>
          (\<exists>pre post. ys = pre @ (m, v) # post \<and> (\<forall>(m', w) \<in> set pre. w < v) \<and>
            (\<forall>(m', w) \<in> set post. w \<le> v))" (is "?L \<longleftrightarrow> ?R")
    proof
      assume ?L
      then obtain pre post where p: "(m', w) # ys = pre @ (m, v) # post"
        "\<forall>(m', w) \<in> set pre. w < v" "\<forall>(m', w) \<in> set post. w \<le> v"
        by blast
      from p(1) True obtain pre' where "pre = (m', w) # pre'"
        by (cases pre) auto
      with p show ?R by auto
    next
      assume ?R
      then obtain pre post where p: "ys = pre @ (m, v) # post"
        "\<forall>(m', w) \<in> set pre. w < v" "\<forall>(m', w) \<in> set post. w \<le> v"
        by blast
      then have "(m', w) # ys = ((m', w) # pre) @ (m, v) # post \<and>
        (\<forall>(m', w) \<in> set ((m', w) # pre). w < v) \<and> (\<forall>(m', w) \<in> set post. w \<le> v)"
        using True by simp
      then show ?L by blast
    qed
    with True y Cons.IH show ?thesis by simp
  next
    case False
    have "(\<exists>pre post. (m', w) # ys = pre @ (m, v) # post \<and> (\<forall>(m', w) \<in> set pre. w < v) \<and>
            (\<forall>(m', w) \<in> set post. w \<le> v)) \<longleftrightarrow>
          (m' = m \<and> w = v \<and> (\<forall>(m'', u) \<in> set ys. u \<le> v))" (is "?L \<longleftrightarrow> ?R")
    proof
      assume ?L
      then obtain pre post where p: "(m', w) # ys = pre @ (m, v) # post"
        "\<forall>(m', w) \<in> set pre. w < v" "\<forall>(m', w) \<in> set post. w \<le> v"
        by blast
      from p(1,2) False have "pre = []"
        by (cases pre) auto
      with p show ?R by auto
    next
      assume ?R
      then have "(m', w) # ys = [] @ (m, v) # ys \<and> (\<forall>(m', w) \<in> set []. w < v) \<and>
        (\<forall>(m', w) \<in> set ys. w \<le> v)"
        by simp
      then show ?L by blast
    qed
    with False y show ?thesis by simp
  qed
qed

lemma first_greatest_member: "first_greatest ys m v \<Longrightarrow> (m, v) \<in> set ys"
  by (auto simp add: first_greatest_iff)

lemma minimax_max_loop_choice:
  assumes "\<forall>c \<in> snd ` set xs. \<forall>n. rec c n = bump n (rec c 0)"
    and "minimax_max_loop rec xs bv bm nv = Some ((v, mv), nv')"
  shows "\<exists>ys. map (\<lambda>(m, c). (m, score_of_result (rec c 0))) xs = map (\<lambda>(m, w). (m, Some w)) ys \<and>
           (v = bv \<and> mv = bm \<and> (\<forall>(m, w) \<in> set ys. w \<le> bv) \<or>
            bv < v \<and> (\<exists>m. mv = Some m \<and> first_greatest ys m v))"
  using assms
proof (induction xs arbitrary: bv bm nv)
  case Nil
  then show ?case by simp
next
  case (Cons x xs)
  obtain m0 c where x: "x = (m0, c)" by (cases x)
  have "c \<in> snd ` set (x # xs)" and sub: "snd ` set xs \<subseteq> snd ` set (x # xs)"
    using x by force+
  with Cons.prems(1) have r: "rec c nv = bump nv (rec c 0)" and
    rest: "\<forall>c \<in> snd ` set xs. \<forall>n. rec c n = bump n (rec c 0)"
    by blast+
  from Cons.prems(2) x obtain val mv0 n1 where c1: "rec c nv = Some ((val, mv0), n1)"
    by (auto split: option.splits)
  with r have "bump nv (rec c 0) = Some ((val, mv0), n1)"
    by (rule subst)
  then have c0: "rec c 0 = Some ((val, mv0), n1 - nv)"
    by (simp only: bump_eq_Some)
  let ?P = "\<lambda>ys b bm'. v = b \<and> mv = bm' \<and> (\<forall>(m, w) \<in> set ys. w \<le> b) \<or>
            b < v \<and> (\<exists>m. mv = Some m \<and> first_greatest ys m v)"
  show ?case
  proof (cases "val > bv")
    case True
    with Cons.prems(2) x c1 have "minimax_max_loop rec xs val (Some m0) n1 = Some ((v, mv), nv')"
      by simp
    from Cons.IH [OF rest this] obtain ys where
      ys: "map (\<lambda>(m, c). (m, score_of_result (rec c 0))) xs = map (\<lambda>(m, w). (m, Some w)) ys"
      and P: "?P ys val (Some m0)"
      by blast
    from P True have "?P ((m0, val) # ys) bv bm"
      by auto
    moreover from ys x c0
    have "map (\<lambda>(m, c). (m, score_of_result (rec c 0))) (x # xs) = map (\<lambda>(m, w). (m, Some w)) ((m0, val) # ys)"
      by (simp add: score_of_result_def)
    ultimately show ?thesis by blast
  next
    case False
    with Cons.prems(2) x c1 have "minimax_max_loop rec xs bv bm n1 = Some ((v, mv), nv')"
      by simp
    from Cons.IH [OF rest this] obtain ys where
      ys: "map (\<lambda>(m, c). (m, score_of_result (rec c 0))) xs = map (\<lambda>(m, w). (m, Some w)) ys"
      and P: "?P ys bv bm"
      by blast
    from P False have "?P ((m0, val) # ys) bv bm"
      by auto
    moreover from ys x c0
    have "map (\<lambda>(m, c). (m, score_of_result (rec c 0))) (x # xs) = map (\<lambda>(m, w). (m, Some w)) ((m0, val) # ys)"
      by (simp add: score_of_result_def)
    ultimately show ?thesis by blast
  qed
qed
lemma first_smallest_iff:
  "first_smallest ys m v \<longleftrightarrow>
   (\<exists>pre post. ys = pre @ (m, v) # post \<and> (\<forall>(m', w) \<in> set pre. w > v) \<and>
      (\<forall>(m', w) \<in> set post. w \<ge> v))"
proof (induction ys)
  case Nil
  show ?case by simp
next
  case (Cons y ys)
  obtain m' w where y: "y = (m', w)" by (cases y)
  show ?case
  proof (cases "w > v")
    case True
    have "(\<exists>pre post. (m', w) # ys = pre @ (m, v) # post \<and> (\<forall>(m', w) \<in> set pre. w > v) \<and>
            (\<forall>(m', w) \<in> set post. w \<ge> v)) \<longleftrightarrow>
          (\<exists>pre post. ys = pre @ (m, v) # post \<and> (\<forall>(m', w) \<in> set pre. w > v) \<and>
            (\<forall>(m', w) \<in> set post. w \<ge> v))" (is "?L \<longleftrightarrow> ?R")
    proof
      assume ?L
      then obtain pre post where p: "(m', w) # ys = pre @ (m, v) # post"
        "\<forall>(m', w) \<in> set pre. w > v" "\<forall>(m', w) \<in> set post. w \<ge> v"
        by blast
      from p(1) True obtain pre' where "pre = (m', w) # pre'"
        by (cases pre) auto
      with p show ?R by auto
    next
      assume ?R
      then obtain pre post where p: "ys = pre @ (m, v) # post"
        "\<forall>(m', w) \<in> set pre. w > v" "\<forall>(m', w) \<in> set post. w \<ge> v"
        by blast
      then have "(m', w) # ys = ((m', w) # pre) @ (m, v) # post \<and>
        (\<forall>(m', w) \<in> set ((m', w) # pre). w > v) \<and> (\<forall>(m', w) \<in> set post. w \<ge> v)"
        using True by simp
      then show ?L by blast
    qed
    with True y Cons.IH show ?thesis by simp
  next
    case False
    have "(\<exists>pre post. (m', w) # ys = pre @ (m, v) # post \<and> (\<forall>(m', w) \<in> set pre. w > v) \<and>
            (\<forall>(m', w) \<in> set post. w \<ge> v)) \<longleftrightarrow>
          (m' = m \<and> w = v \<and> (\<forall>(m'', u) \<in> set ys. u \<ge> v))" (is "?L \<longleftrightarrow> ?R")
    proof
      assume ?L
      then obtain pre post where p: "(m', w) # ys = pre @ (m, v) # post"
        "\<forall>(m', w) \<in> set pre. w > v" "\<forall>(m', w) \<in> set post. w \<ge> v"
        by blast
      from p(1,2) False have "pre = []"
        by (cases pre) auto
      with p show ?R by auto
    next
      assume ?R
      then have "(m', w) # ys = [] @ (m, v) # ys \<and> (\<forall>(m', w) \<in> set []. w > v) \<and>
        (\<forall>(m', w) \<in> set ys. w \<ge> v)"
        by simp
      then show ?L by blast
    qed
    with False y show ?thesis by simp
  qed
qed

lemma first_smallest_member: "first_smallest ys m v \<Longrightarrow> (m, v) \<in> set ys"
  by (auto simp add: first_smallest_iff)

lemma minimax_min_loop_choice:
  assumes "\<forall>c \<in> snd ` set xs. \<forall>n. rec c n = bump n (rec c 0)"
    and "minimax_min_loop rec xs bv bm nv = Some ((v, mv), nv')"
  shows "\<exists>ys. map (\<lambda>(m, c). (m, score_of_result (rec c 0))) xs = map (\<lambda>(m, w). (m, Some w)) ys \<and>
           (v = bv \<and> mv = bm \<and> (\<forall>(m, w) \<in> set ys. w \<ge> bv) \<or>
            bv > v \<and> (\<exists>m. mv = Some m \<and> first_smallest ys m v))"
  using assms
proof (induction xs arbitrary: bv bm nv)
  case Nil
  then show ?case by simp
next
  case (Cons x xs)
  obtain m0 c where x: "x = (m0, c)" by (cases x)
  have "c \<in> snd ` set (x # xs)" and sub: "snd ` set xs \<subseteq> snd ` set (x # xs)"
    using x by force+
  with Cons.prems(1) have r: "rec c nv = bump nv (rec c 0)" and
    rest: "\<forall>c \<in> snd ` set xs. \<forall>n. rec c n = bump n (rec c 0)"
    by blast+
  from Cons.prems(2) x obtain val mv0 n1 where c1: "rec c nv = Some ((val, mv0), n1)"
    by (auto split: option.splits)
  with r have "bump nv (rec c 0) = Some ((val, mv0), n1)"
    by (rule subst)
  then have c0: "rec c 0 = Some ((val, mv0), n1 - nv)"
    by (simp only: bump_eq_Some)
  let ?P = "\<lambda>ys b bm'. v = b \<and> mv = bm' \<and> (\<forall>(m, w) \<in> set ys. w \<ge> b) \<or>
            b > v \<and> (\<exists>m. mv = Some m \<and> first_smallest ys m v)"
  show ?case
  proof (cases "val < bv")
    case True
    with Cons.prems(2) x c1 have "minimax_min_loop rec xs val (Some m0) n1 = Some ((v, mv), nv')"
      by simp
    from Cons.IH [OF rest this] obtain ys where
      ys: "map (\<lambda>(m, c). (m, score_of_result (rec c 0))) xs = map (\<lambda>(m, w). (m, Some w)) ys"
      and P: "?P ys val (Some m0)"
      by blast
    from P True have "?P ((m0, val) # ys) bv bm"
      by auto
    moreover from ys x c0
    have "map (\<lambda>(m, c). (m, score_of_result (rec c 0))) (x # xs) = map (\<lambda>(m, w). (m, Some w)) ((m0, val) # ys)"
      by (simp add: score_of_result_def)
    ultimately show ?thesis by blast
  next
    case False
    with Cons.prems(2) x c1 have "minimax_min_loop rec xs bv bm n1 = Some ((v, mv), nv')"
      by simp
    from Cons.IH [OF rest this] obtain ys where
      ys: "map (\<lambda>(m, c). (m, score_of_result (rec c 0))) xs = map (\<lambda>(m, w). (m, Some w)) ys"
      and P: "?P ys bv bm"
      by blast
    from P False have "?P ((m0, val) # ys) bv bm"
      by auto
    moreover from ys x c0
    have "map (\<lambda>(m, c). (m, score_of_result (rec c 0))) (x # xs) = map (\<lambda>(m, w). (m, Some w)) ((m0, val) # ys)"
      by (simp add: score_of_result_def)
    ultimately show ?thesis by blast
  qed
qed

lemma scores_member:
  assumes "map (\<lambda>(m, c). (m, score_of_result (rec c 0))) xs = map (\<lambda>(m, w). (m, Some w)) ys"
    and "(m, w) \<in> set ys"
  shows "\<exists>c mv n. (m, c) \<in> set xs \<and> rec c 0 = Some ((w, mv), n)"
proof -
  from assms(2) have "(m, Some w) \<in> set (map (\<lambda>(m, w). (m, Some w)) ys)"
    by force
  with assms(1) have "(m, Some w) \<in> set (map (\<lambda>(m, c). (m, score_of_result (rec c 0))) xs)"
    by simp
  then obtain c where "(m, c) \<in> set xs" "score_of_result (rec c 0) = Some w"
    by auto
  then show ?thesis
    by (auto simp add: score_of_result_def)
qed

lemma minimax_bump_all:
  "\<forall>c \<in> snd ` set xs. \<forall>n. minimax fuel c d p n = bump n (minimax fuel c d p 0)"
  using minimax_bump by blast

lemma minimax_max_loop_first_greatest:
  assumes "minimax_max_loop rec xs NegInf None nv = Some ((v, mv), nv')"
    and "\<forall>c \<in> snd ` set xs. \<forall>n. rec c n = bump n (rec c 0)"
    and fin: "\<And>c w mv' n. rec c 0 = Some ((w, mv'), n) \<Longrightarrow> \<exists>i. w = Fin i"
    and "xs \<noteq> []"
  shows "\<exists>ys m. map (\<lambda>(m, c). (m, score_of_result (rec c 0))) xs = map (\<lambda>(m, w). (m, Some w)) ys \<and>
           mv = Some m \<and> first_greatest ys m v"
proof -
  from minimax_max_loop_choice [OF assms(2,1)]
  obtain ys where ys: "map (\<lambda>(m, c). (m, score_of_result (rec c 0))) xs = map (\<lambda>(m, w). (m, Some w)) ys"
    and P: "v = NegInf \<and> mv = None \<and> (\<forall>(m, w) \<in> set ys. w \<le> NegInf) \<or>
            NegInf < v \<and> (\<exists>m. mv = Some m \<and> first_greatest ys m v)"
    by blast
  from ys have "length ys = length xs"
    by (metis length_map)
  with \<open>xs \<noteq> []\<close> obtain y ys' where "ys = y # ys'"
    by (cases ys) auto
  then obtain m0 w0 where "(m0, w0) \<in> set ys"
    by (cases y) auto
  moreover from this scores_member [of rec xs ys, OF ys] fin have "\<exists>i. w0 = Fin i"
    by blast
  ultimately have "\<not> (\<forall>(m, w) \<in> set ys. w \<le> NegInf)"
    by force
  with P ys show ?thesis
    by blast
qed

lemma minimax_min_loop_first_smallest:
  assumes "minimax_min_loop rec xs PosInf None nv = Some ((v, mv), nv')"
    and "\<forall>c \<in> snd ` set xs. \<forall>n. rec c n = bump n (rec c 0)"
    and fin: "\<And>c w mv' n. rec c 0 = Some ((w, mv'), n) \<Longrightarrow> \<exists>i. w = Fin i"
    and "xs \<noteq> []"
  shows "\<exists>ys m. map (\<lambda>(m, c). (m, score_of_result (rec c 0))) xs = map (\<lambda>(m, w). (m, Some w)) ys \<and>
           mv = Some m \<and> first_smallest ys m v"
proof -
  from minimax_min_loop_choice [OF assms(2,1)]
  obtain ys where ys: "map (\<lambda>(m, c). (m, score_of_result (rec c 0))) xs = map (\<lambda>(m, w). (m, Some w)) ys"
    and P: "v = PosInf \<and> mv = None \<and> (\<forall>(m, w) \<in> set ys. w \<ge> PosInf) \<or>
            PosInf > v \<and> (\<exists>m. mv = Some m \<and> first_smallest ys m v)"
    by blast
  from ys have "length ys = length xs"
    by (metis length_map)
  with \<open>xs \<noteq> []\<close> obtain y ys' where "ys = y # ys'"
    by (cases ys) auto
  then obtain m0 w0 where "(m0, w0) \<in> set ys"
    by (cases y) auto
  moreover from this scores_member [of rec xs ys, OF ys] fin have "\<exists>i. w0 = Fin i"
    by blast
  ultimately have "\<not> (\<forall>(m, w) \<in> set ys. w \<ge> PosInf)"
    by force
  with P ys show ?thesis
    by blast
qed

lemma get_successors_nonempty: "\<not> is_terminal s \<Longrightarrow> get_successors s \<noteq> []"
  by (simp add: get_successors_def)

lemma minimax_finite:
  "minimax fuel s depth mp nv = Some ((v, mv), nv') \<Longrightarrow> \<exists>i. v = Fin i"
proof (induction fuel arbitrary: s depth mp nv v mv nv')
  case 0
  then show ?case by simp
next
  case (Suc fuel)
  show ?case
  proof (cases "depth = 0 \<or> is_terminal s")
    case True
    with Suc.prems show ?thesis by auto
  next
    case False
    then have ne: "get_successors s \<noteq> []"
      by (simp add: get_successors_nonempty)
    show ?thesis
    proof (cases mp)
      case True
      let ?rec = "\<lambda>c. minimax fuel c (depth - 1) False"
      from Suc.prems False True
      have "minimax_max_loop ?rec (get_successors s) NegInf None (nv + 1) = Some ((v, mv), nv')"
        by (simp add: Let_def)
      moreover have "\<exists>i. w = Fin i" if "?rec c 0 = Some ((w, mv'), n)" for c w mv' n
        using that by (rule Suc.IH)
      ultimately have "\<exists>ys m. map (\<lambda>(m, c). (m, score_of_result (?rec c 0))) (get_successors s)
            = map (\<lambda>(m, w). (m, Some w)) ys \<and> mv = Some m \<and> first_greatest ys m v"
        using minimax_bump_all ne by (intro minimax_max_loop_first_greatest) blast+
      then
      obtain ys m where
        ys: "map (\<lambda>(m, c). (m, score_of_result (?rec c 0))) (get_successors s) = map (\<lambda>(m, w). (m, Some w)) ys"
        and "first_greatest ys m v"
        by blast
      then have "(m, v) \<in> set ys"
        by (simp add: first_greatest_member)
      from scores_member [of ?rec, OF ys this] Suc.IH show ?thesis
        by blast
    next
      case mp: False
      let ?rec = "\<lambda>c. minimax fuel c (depth - 1) True"
      from Suc.prems False mp
      have "minimax_min_loop ?rec (get_successors s) PosInf None (nv + 1) = Some ((v, mv), nv')"
        by (simp add: Let_def)
      moreover have "\<exists>i. w = Fin i" if "?rec c 0 = Some ((w, mv'), n)" for c w mv' n
        using that by (rule Suc.IH)
      ultimately have "\<exists>ys m. map (\<lambda>(m, c). (m, score_of_result (?rec c 0))) (get_successors s)
            = map (\<lambda>(m, w). (m, Some w)) ys \<and> mv = Some m \<and> first_smallest ys m v"
        using minimax_bump_all ne by (intro minimax_min_loop_first_smallest) blast+
      then
      obtain ys m where
        ys: "map (\<lambda>(m, c). (m, score_of_result (?rec c 0))) (get_successors s) = map (\<lambda>(m, w). (m, Some w)) ys"
        and "first_smallest ys m v"
        by blast
      then have "(m, v) \<in> set ys"
        by (simp add: first_smallest_member)
      from scores_member [of ?rec, OF ys this] Suc.IH show ?thesis
        by blast
    qed
  qed
qed

lemma minimax_max_step:
  assumes "depth \<noteq> 0" "\<not> is_terminal s"
    and "minimax (Suc fuel) s depth True nv = Some ((v, mv), nv')"
  shows "\<exists>ys m. map (\<lambda>(m, c). (m, minimax_score fuel c (depth - 1) False)) (get_successors s)
              = map (\<lambda>(m, w). (m, Some w)) ys \<and>
           mv = Some m \<and> first_greatest ys m v"
proof -
  let ?rec = "\<lambda>c. minimax fuel c (depth - 1) False"
  from assms
  have "minimax_max_loop ?rec (get_successors s) NegInf None (nv + 1) = Some ((v, mv), nv')"
    by (simp add: Let_def)
  moreover have "\<exists>i. w = Fin i" if "?rec c 0 = Some ((w, mv'), n)" for c w mv' n
    using that by (rule minimax_finite)
  ultimately have "\<exists>ys m. map (\<lambda>(m, c). (m, score_of_result (?rec c 0))) (get_successors s)
        = map (\<lambda>(m, w). (m, Some w)) ys \<and> mv = Some m \<and> first_greatest ys m v"
    using minimax_bump_all get_successors_nonempty [OF assms(2)] by (intro minimax_max_loop_first_greatest) blast+
  then show ?thesis
    by (simp add: minimax_score_def)
qed

lemma minimax_min_step:
  assumes "depth \<noteq> 0" "\<not> is_terminal s"
    and "minimax (Suc fuel) s depth False nv = Some ((v, mv), nv')"
  shows "\<exists>ys m. map (\<lambda>(m, c). (m, minimax_score fuel c (depth - 1) True)) (get_successors s)
              = map (\<lambda>(m, w). (m, Some w)) ys \<and>
           mv = Some m \<and> first_smallest ys m v"
proof -
  let ?rec = "\<lambda>c. minimax fuel c (depth - 1) True"
  from assms
  have "minimax_min_loop ?rec (get_successors s) PosInf None (nv + 1) = Some ((v, mv), nv')"
    by (simp add: Let_def)
  moreover have "\<exists>i. w = Fin i" if "?rec c 0 = Some ((w, mv'), n)" for c w mv' n
    using that by (rule minimax_finite)
  ultimately have "\<exists>ys m. map (\<lambda>(m, c). (m, score_of_result (?rec c 0))) (get_successors s)
        = map (\<lambda>(m, w). (m, Some w)) ys \<and> mv = Some m \<and> first_smallest ys m v"
    using minimax_bump_all get_successors_nonempty [OF assms(2)] by (intro minimax_min_loop_first_smallest) blast+
  then show ?thesis
    by (simp add: minimax_score_def)
qed

lemma minimax_move:
  assumes "\<not> is_terminal s" "1 \<le> depth" "nat depth < fuel"
  shows "\<exists>v m nv'. minimax fuel s depth mp nv = Some ((v, Some m), nv') \<and> m \<in> {2, 3, 4}"
proof -
  from assms obtain k where k: "fuel = Suc k"
    by (cases fuel) auto
  from assms have "minimax fuel s depth mp nv \<noteq> None"
    by (intro minimax_returns_depth) simp_all
  then obtain v mv nv' where r: "minimax (Suc k) s depth mp nv = Some ((v, mv), nv')"
    using k by auto
  from assms(2) have d: "depth \<noteq> 0" by simp
  have "\<exists>ys m. map fst (get_successors s) = map fst ys \<and> mv = Some m \<and> (m, v) \<in> set ys"
  proof (cases mp)
    case True
    with r have "minimax (Suc k) s depth True nv = Some ((v, mv), nv')"
      by simp
    from minimax_max_step [OF d assms(1) this] obtain ys m where
      ys: "map (\<lambda>(m, c). (m, minimax_score k c (depth - 1) False)) (get_successors s)
              = map (\<lambda>(m, w). (m, Some w)) ys"
      and m: "mv = Some m" "first_greatest ys m v"
      by blast
    from ys have "map fst (map (\<lambda>(m, c). (m, minimax_score k c (depth - 1) False)) (get_successors s))
      = map fst (map (\<lambda>(m, w). (m, Some w)) ys)"
      by simp
    then have "map fst (get_successors s) = map fst ys"
      by (simp add: case_prod_unfold comp_def)
    with m show ?thesis
      using first_greatest_member by blast
  next
    case False
    with r have "minimax (Suc k) s depth False nv = Some ((v, mv), nv')"
      by simp
    from minimax_min_step [OF d assms(1) this] obtain ys m where
      ys: "map (\<lambda>(m, c). (m, minimax_score k c (depth - 1) True)) (get_successors s)
              = map (\<lambda>(m, w). (m, Some w)) ys"
      and m: "mv = Some m" "first_smallest ys m v"
      by blast
    from ys have "map fst (map (\<lambda>(m, c). (m, minimax_score k c (depth - 1) True)) (get_successors s))
      = map fst (map (\<lambda>(m, w). (m, Some w)) ys)"
      by simp
    then have "map fst (get_successors s) = map fst ys"
      by (simp add: case_prod_unfold comp_def)
    with m show ?thesis
      using first_smallest_member by blast
  qed
  then obtain ys m where "map fst (get_successors s) = map fst ys" "mv = Some m" "(m, v) \<in> set ys"
    by blast
  moreover from this have "m \<in> set (map fst (get_successors s))"
    by force
  then have "m \<in> {2, 3, 4}"
    using assms(1) by (simp add: get_successors_def)
  ultimately show ?thesis
    using r k by blast
qed

text \<open>
  C4: with depth 0 or on a terminal state minimax returns the evaluation of the state and
  no move after counting one node, whatever the fuel, so without any recursive call.
  Otherwise the maximizing branch returns the first of the greatest values of the
  successors, searched one level less deep with the flag switched, together with its move:
  every earlier successor has a strictly smaller value and no later one a greater value;
  the minimizing branch returns the first of the smallest values in the same way. From a
  state that is not terminal, with depth at least 1, the search returns a move among
  2, 3 and 4.
\<close>

theorem minimax_contract:
  "(depth = 0 \<or> is_terminal s \<longrightarrow>
      minimax (Suc fuel) s depth mp nv = Some ((Fin (evaluate s), None), nv + 1)) \<and>
   (depth \<noteq> 0 \<and> \<not> is_terminal s \<and> minimax (Suc fuel) s depth True nv = Some ((v, mv), nv') \<longrightarrow>
      (\<exists>ys m. map (\<lambda>(m, c). (m, minimax_score fuel c (depth - 1) False)) (get_successors s)
                 = map (\<lambda>(m, w). (m, Some w)) ys \<and>
              mv = Some m \<and> first_greatest ys m v)) \<and>
   (depth \<noteq> 0 \<and> \<not> is_terminal s \<and> minimax (Suc fuel) s depth False nv = Some ((v, mv), nv') \<longrightarrow>
      (\<exists>ys m. map (\<lambda>(m, c). (m, minimax_score fuel c (depth - 1) True)) (get_successors s)
                 = map (\<lambda>(m, w). (m, Some w)) ys \<and>
              mv = Some m \<and> first_smallest ys m v)) \<and>
   (\<not> is_terminal s \<and> 1 \<le> depth \<and> nat depth < k \<longrightarrow>
      (\<exists>v m nv'. minimax k s depth mp nv = Some ((v, Some m), nv') \<and> m \<in> {2, 3, 4}))"
  using minimax_max_step [of depth s fuel nv v mv nv'] minimax_min_step [of depth s fuel nv v mv nv']
    minimax_move [of s depth k mp nv]
  by (auto simp add: Let_def)

theorem minimax_contract_witness:
  "minimax 1 \<lparr>current_number = 400, human_score = 0, computer_score = 0, current_player = COMPUTER\<rparr> 0 True 0
     = Some ((Fin 0, None), 1) \<and>
   minimax 2 \<lparr>current_number = 400, human_score = 0, computer_score = 0, current_player = COMPUTER\<rparr> 1 True 0
     = Some ((Fin 999999, Some 3), 4) \<and>
   (\<exists>ys m. map (\<lambda>(m, c). (m, minimax_score 1 c (1 - 1) False))
        (get_successors \<lparr>current_number = 400, human_score = 0, computer_score = 0, current_player = COMPUTER\<rparr>)
        = map (\<lambda>(m, w). (m, Some w)) ys \<and>
      Some 3 = Some m \<and> first_greatest ys m (Fin 999999)) \<and>
   first_greatest [(2, Fin 1), (3, Fin 999999), (4, Fin 999999)] 3 (Fin 999999) \<and>
   minimax 2 \<lparr>current_number = 400, human_score = 0, computer_score = 0, current_player = COMPUTER\<rparr> 1 False 0
     = Some ((Fin 1, Some 2), 4) \<and>
   (\<exists>ys m. map (\<lambda>(m, c). (m, minimax_score 1 c (1 - 1) True))
        (get_successors \<lparr>current_number = 400, human_score = 0, computer_score = 0, current_player = COMPUTER\<rparr>)
        = map (\<lambda>(m, w). (m, Some w)) ys \<and>
      Some 2 = Some m \<and> first_smallest ys m (Fin 1)) \<and>
   first_smallest [(2, Fin 1), (3, Fin 999999), (4, Fin 999999)] 2 (Fin 1) \<and>
   (\<exists>v m nv'. minimax 2 \<lparr>current_number = 400, human_score = 0, computer_score = 0, current_player = COMPUTER\<rparr> 1 True 0
       = Some ((v, Some m), nv') \<and> m \<in> {2, 3, 4})"
proof -
  let ?s = "\<lparr>current_number = 400, human_score = 0, computer_score = 0, current_player = COMPUTER\<rparr>"
  have n: "\<not> is_terminal ?s"
    by (simp add: is_terminal_def)
  have mx: "minimax (Suc 1) ?s 1 True 0 = Some ((Fin 999999, Some 3), 4)"
    by code_simp
  have mn: "minimax (Suc 1) ?s 1 False 0 = Some ((Fin 1, Some 2), 4)"
    by code_simp
  have fg: "first_greatest [(2, Fin 1), (3, Fin 999999), (4, Fin 999999)] 3 (Fin 999999)"
    and fs: "first_smallest [(2, Fin 1), (3, Fin 999999), (4, Fin 999999)] 2 (Fin 1)"
    by (simp_all add: less_xint_def)
  have "minimax (Suc 0) ?s 0 True 0 = Some ((Fin (evaluate ?s), None), 0 + 1)"
    using minimax_contract [of 0 ?s 0 True 0] by blast
  then have base: "minimax 1 ?s 0 True 0 = Some ((Fin 0, None), 1)"
    by (simp add: evaluate_def is_terminal_def)
  from n mx minimax_contract [of 1 ?s 1 True 0 "Fin 999999" "Some 3" 4]
  have a: "\<exists>ys m. map (\<lambda>(m, c). (m, minimax_score 1 c (1 - 1) False)) (get_successors ?s)
        = map (\<lambda>(m, w). (m, Some w)) ys \<and> Some 3 = Some m \<and> first_greatest ys m (Fin 999999)"
    by simp
  from n mn minimax_contract [of 1 ?s 1 False 0 "Fin 1" "Some 2" 4]
  have b: "\<exists>ys m. map (\<lambda>(m, c). (m, minimax_score 1 c (1 - 1) True)) (get_successors ?s)
        = map (\<lambda>(m, w). (m, Some w)) ys \<and> Some 2 = Some m \<and> first_smallest ys m (Fin 1)"
    by simp
  from n minimax_contract [of 1 ?s 1 True 0 _ _ _ 2]
  have c: "\<exists>v m nv'. minimax 2 ?s 1 True 0 = Some ((v, Some m), nv') \<and> m \<in> {2, 3, 4}"
    by simp
  from mx mn have "minimax 2 ?s 1 True 0 = Some ((Fin 999999, Some 3), 4)"
    "minimax 2 ?s 1 False 0 = Some ((Fin 1, Some 2), 4)"
    by (simp_all only: numeral_2_eq_2 One_nat_def)
  with base a b c fg fs show ?thesis
    by blast
qed

section \<open>Alpha-beta against minimax\<close>

lemma le_PosInf [simp]: "x \<le> PosInf"
  by (cases x) simp_all

lemma NegInf_less_Fin [simp]: "NegInf < Fin i"
  by (simp add: less_xint_def)

lemma Fin_less_PosInf [simp]: "Fin i < PosInf"
  by (simp add: less_xint_def)

lemma minimax_max_loop_ge:
  "minimax_max_loop rm xs M bm nv0 = Some ((v, mv), nv1) \<Longrightarrow> M \<le> v"
proof (induction xs arbitrary: M bm nv0)
  case Nil
  then show ?case by simp
next
  case (Cons x xs)
  obtain m0 c where x: "x = (m0, c)" by (cases x)
  from Cons.prems x obtain w mw k1 where c: "rm c nv0 = Some ((w, mw), k1)"
    by (auto split: option.splits)
  show ?case
  proof (cases "w > M")
    case True
    with Cons.prems x c have "minimax_max_loop rm xs w (Some m0) k1 = Some ((v, mv), nv1)"
      by simp
    from Cons.IH [OF this] True show ?thesis by simp
  next
    case False
    with Cons.prems x c have "minimax_max_loop rm xs M bm k1 = Some ((v, mv), nv1)"
      by simp
    from Cons.IH [OF this] show ?thesis .
  qed
qed

lemma minimax_min_loop_le:
  "minimax_min_loop rm xs M bm nv0 = Some ((v, mv), nv1) \<Longrightarrow> v \<le> M"
proof (induction xs arbitrary: M bm nv0)
  case Nil
  then show ?case by simp
next
  case (Cons x xs)
  obtain m0 c where x: "x = (m0, c)" by (cases x)
  from Cons.prems x obtain w mw k1 where c: "rm c nv0 = Some ((w, mw), k1)"
    by (auto split: option.splits)
  show ?case
  proof (cases "w < M")
    case True
    with Cons.prems x c have "minimax_min_loop rm xs w (Some m0) k1 = Some ((v, mv), nv1)"
      by simp
    from Cons.IH [OF this] True show ?thesis by simp
  next
    case False
    with Cons.prems x c have "minimax_min_loop rm xs M bm k1 = Some ((v, mv), nv1)"
      by simp
    from Cons.IH [OF this] show ?thesis .
  qed
qed

lemma alpha_beta_max_loop_sound:
  assumes "minimax_max_loop rm xs M bm nv0 = Some ((v, mv), nv1)"
    and "\<And>c n0 w mw n1 a b n. c \<in> snd ` set xs \<Longrightarrow> rm c n0 = Some ((w, mw), n1) \<Longrightarrow> a < b \<Longrightarrow>
           \<exists>x mx n2. ra c a b n = Some ((x, mx), n2) \<and> fail_soft a b w x"
    and "M \<le> B" "B \<le> alpha" "alpha < beta"
  shows "\<exists>r mr n2. alpha_beta_max_loop ra xs alpha beta B bm' n = Some ((r, mr), n2) \<and>
           fail_soft alpha beta v r \<and>
           (v < beta \<and> (alpha < v \<or> M = alpha \<and> B = alpha \<and> bm' = bm) \<longrightarrow> mr = mv)"
  using assms
proof (induction xs arbitrary: M bm nv0 alpha B bm' n)
  case Nil
  then show ?case
    by (auto simp add: fail_soft_def)
next
  case (Cons x xs)
  obtain m0 c where x: "x = (m0, c)" by (cases x)
  from Cons.prems(1) x obtain w mw k1 where c: "rm c nv0 = Some ((w, mw), k1)"
    by (auto split: option.splits)
  have mem: "c \<in> snd ` set (x # xs)" and sub: "snd ` set xs \<subseteq> snd ` set (x # xs)"
    using x by force+
  from Cons.prems(2) [OF mem c \<open>alpha < beta\<close>, of n]
  obtain xv mx k2 where ra: "ra c alpha beta n = Some ((xv, mx), k2)" and fs: "fail_soft alpha beta w xv"
    by blast
  have rest: "\<exists>x mx n2. ra c' a b n = Some ((x, mx), n2) \<and> fail_soft a b w' x"
    if "c' \<in> snd ` set xs" "rm c' n0 = Some ((w', mw'), n1)" "a < b" for c' n0 w' mw' n1 a b n
    using Cons.prems(2) [OF subsetD [OF sub that(1)] that(2,3)] .
  define M' where "M' = (if w > M then w else M)"
  define bm1 where "bm1 = (if w > M then Some m0 else bm)"
  define B' where "B' = (if xv > B then xv else B)"
  define bm2 where "bm2 = (if xv > B then Some m0 else bm')"
  from Cons.prems(1) x c have mm: "minimax_max_loop rm xs M' bm1 k1 = Some ((v, mv), nv1)"
    by (auto simp add: M'_def bm1_def split: if_splits)
  then have vM': "M' \<le> v"
    by (rule minimax_max_loop_ge)
  have step: "alpha_beta_max_loop ra (x # xs) alpha beta B bm' n =
      (if max alpha B' \<ge> beta then Some ((B', bm2), k2)
       else alpha_beta_max_loop ra xs (max alpha B') beta B' bm2 k2)"
    using x ra by (simp add: B'_def bm2_def Let_def)
  consider (low) "w \<le> alpha" | (mid) "alpha < w" "w < beta" | (high) "beta \<le> w"
    by fastforce
  then show ?case
  proof cases
    case low
    with fs have xv: "w \<le> xv" "xv \<le> alpha"
      by (simp_all add: fail_soft_def)
    with Cons.prems(3,4) have B': "M' \<le> B'" "B' \<le> alpha"
      by (auto simp add: M'_def B'_def)
    then have a: "max alpha B' = alpha"
      by (simp add: max_def)
    have "\<exists>r mr n2. alpha_beta_max_loop ra xs alpha beta B' bm2 k2 = Some ((r, mr), n2) \<and>
        fail_soft alpha beta v r \<and>
        (v < beta \<and> (alpha < v \<or> M' = alpha \<and> B' = alpha \<and> bm2 = bm1) \<longrightarrow> mr = mv)"
      by (rule Cons.IH [OF mm _ B' \<open>alpha < beta\<close>]) (rule rest)
    then obtain r mr n2 where r: "alpha_beta_max_loop ra xs alpha beta B' bm2 k2 = Some ((r, mr), n2)"
      "fail_soft alpha beta v r"
      "v < beta \<and> (alpha < v \<or> M' = alpha \<and> B' = alpha \<and> bm2 = bm1) \<longrightarrow> mr = mv"
      by blast
    have "M' = alpha \<and> B' = alpha \<and> bm2 = bm1" if "M = alpha" "B = alpha" "bm' = bm"
      using that low xv by (auto simp add: M'_def B'_def bm1_def bm2_def)
    with r step a \<open>alpha < beta\<close> show ?thesis
      by auto
  next
    case mid
    with fs have xv: "xv = w"
      by (simp add: fail_soft_def)
    from mid Cons.prems(3,4) xv have eq: "M' = w" "B' = w" "bm1 = Some m0" "bm2 = Some m0"
      by (auto simp add: M'_def B'_def bm1_def bm2_def)
    with mid have a: "max alpha B' = w"
      by (auto simp add: max_def)
    from eq have "M' \<le> B'" "B' \<le> w"
      by simp_all
    then have "\<exists>r mr n2. alpha_beta_max_loop ra xs w beta B' bm2 k2 = Some ((r, mr), n2) \<and>
        fail_soft w beta v r \<and>
        (v < beta \<and> (w < v \<or> M' = w \<and> B' = w \<and> bm2 = bm1) \<longrightarrow> mr = mv)"
      using \<open>w < beta\<close> by (intro Cons.IH [OF mm]) (rule rest)
    then obtain r mr n2 where r: "alpha_beta_max_loop ra xs w beta B' bm2 k2 = Some ((r, mr), n2)"
      "fail_soft w beta v r"
      "v < beta \<and> (w < v \<or> M' = w \<and> B' = w \<and> bm2 = bm1) \<longrightarrow> mr = mv"
      by blast
    from r(2) vM' eq(1) mid(1) have "fail_soft alpha beta v r"
      by (auto simp add: fail_soft_def)
    with r step a mid eq show ?thesis
      by auto
  next
    case high
    with fs have xv: "beta \<le> xv" "xv \<le> w"
      by (simp_all add: fail_soft_def)
    with Cons.prems(4,5) have "B < xv"
      by auto
    then have eq: "B' = xv" "bm2 = Some m0"
      by (simp_all add: B'_def bm2_def)
    with xv have a: "beta \<le> max alpha B'"
      by (simp add: le_max_iff_disj)
    have "w \<le> M'"
      by (auto simp add: M'_def)
    with vM' have "w \<le> v"
      by simp
    with xv have "fail_soft alpha beta v xv" "\<not> v < beta"
      using Cons.prems(5) by (auto simp add: fail_soft_def)
    with step a eq show ?thesis
      by auto
  qed
qed

lemma alpha_beta_min_loop_sound:
  assumes "minimax_min_loop rm xs M bm nv0 = Some ((v, mv), nv1)"
    and "\<And>c n0 w mw n1 a b n. c \<in> snd ` set xs \<Longrightarrow> rm c n0 = Some ((w, mw), n1) \<Longrightarrow> a < b \<Longrightarrow>
           \<exists>x mx n2. ra c a b n = Some ((x, mx), n2) \<and> fail_soft a b w x"
    and "B \<le> M" "beta \<le> B" "alpha < beta"
  shows "\<exists>r mr n2. alpha_beta_min_loop ra xs alpha beta B bm' n = Some ((r, mr), n2) \<and>
           fail_soft alpha beta v r \<and>
           (alpha < v \<and> (v < beta \<or> M = beta \<and> B = beta \<and> bm' = bm) \<longrightarrow> mr = mv)"
  using assms
proof (induction xs arbitrary: M bm nv0 beta B bm' n)
  case Nil
  then show ?case
    by (auto simp add: fail_soft_def)
next
  case (Cons x xs)
  obtain m0 c where x: "x = (m0, c)" by (cases x)
  from Cons.prems(1) x obtain w mw k1 where c: "rm c nv0 = Some ((w, mw), k1)"
    by (auto split: option.splits)
  have mem: "c \<in> snd ` set (x # xs)" and sub: "snd ` set xs \<subseteq> snd ` set (x # xs)"
    using x by force+
  from Cons.prems(2) [OF mem c \<open>alpha < beta\<close>, of n]
  obtain xv mx k2 where ra: "ra c alpha beta n = Some ((xv, mx), k2)" and fs: "fail_soft alpha beta w xv"
    by blast
  have rest: "\<exists>x mx n2. ra c' a b n = Some ((x, mx), n2) \<and> fail_soft a b w' x"
    if "c' \<in> snd ` set xs" "rm c' n0 = Some ((w', mw'), n1)" "a < b" for c' n0 w' mw' n1 a b n
    using Cons.prems(2) [OF subsetD [OF sub that(1)] that(2,3)] .
  define M' where "M' = (if w < M then w else M)"
  define bm1 where "bm1 = (if w < M then Some m0 else bm)"
  define B' where "B' = (if xv < B then xv else B)"
  define bm2 where "bm2 = (if xv < B then Some m0 else bm')"
  from Cons.prems(1) x c have mm: "minimax_min_loop rm xs M' bm1 k1 = Some ((v, mv), nv1)"
    by (auto simp add: M'_def bm1_def split: if_splits)
  then have vM': "v \<le> M'"
    by (rule minimax_min_loop_le)
  have step: "alpha_beta_min_loop ra (x # xs) alpha beta B bm' n =
      (if min beta B' \<le> alpha then Some ((B', bm2), k2)
       else alpha_beta_min_loop ra xs alpha (min beta B') B' bm2 k2)"
    using x ra by (simp add: B'_def bm2_def Let_def)
  consider (high) "beta \<le> w" | (mid) "alpha < w" "w < beta" | (low) "w \<le> alpha"
    by fastforce
  then show ?case
  proof cases
    case high
    with fs have xv: "beta \<le> xv" "xv \<le> w"
      by (simp_all add: fail_soft_def)
    with Cons.prems(3,4) have B': "B' \<le> M'" "beta \<le> B'"
      by (auto simp add: M'_def B'_def)
    then have a: "min beta B' = beta"
      by (simp add: min_def)
    have "\<exists>r mr n2. alpha_beta_min_loop ra xs alpha beta B' bm2 k2 = Some ((r, mr), n2) \<and>
        fail_soft alpha beta v r \<and>
        (alpha < v \<and> (v < beta \<or> M' = beta \<and> B' = beta \<and> bm2 = bm1) \<longrightarrow> mr = mv)"
      by (rule Cons.IH [OF mm _ B' \<open>alpha < beta\<close>]) (rule rest)
    then obtain r mr n2 where r: "alpha_beta_min_loop ra xs alpha beta B' bm2 k2 = Some ((r, mr), n2)"
      "fail_soft alpha beta v r"
      "alpha < v \<and> (v < beta \<or> M' = beta \<and> B' = beta \<and> bm2 = bm1) \<longrightarrow> mr = mv"
      by blast
    have "M' = beta \<and> B' = beta \<and> bm2 = bm1" if "M = beta" "B = beta" "bm' = bm"
      using that high xv by (auto simp add: M'_def B'_def bm1_def bm2_def)
    with r step a \<open>alpha < beta\<close> show ?thesis
      by auto
  next
    case mid
    with fs have xv: "xv = w"
      by (simp add: fail_soft_def)
    from mid Cons.prems(3,4) xv have eq: "M' = w" "B' = w" "bm1 = Some m0" "bm2 = Some m0"
      by (auto simp add: M'_def B'_def bm1_def bm2_def)
    with mid have a: "min beta B' = w"
      by (auto simp add: min_def)
    from eq have "B' \<le> M'" "w \<le> B'"
      by simp_all
    then have "\<exists>r mr n2. alpha_beta_min_loop ra xs alpha w B' bm2 k2 = Some ((r, mr), n2) \<and>
        fail_soft alpha w v r \<and>
        (alpha < v \<and> (v < w \<or> M' = w \<and> B' = w \<and> bm2 = bm1) \<longrightarrow> mr = mv)"
      using \<open>alpha < w\<close> by (intro Cons.IH [OF mm]) (rule rest)
    then obtain r mr n2 where r: "alpha_beta_min_loop ra xs alpha w B' bm2 k2 = Some ((r, mr), n2)"
      "fail_soft alpha w v r"
      "alpha < v \<and> (v < w \<or> M' = w \<and> B' = w \<and> bm2 = bm1) \<longrightarrow> mr = mv"
      by blast
    from r(2) vM' eq(1) mid(2) have "fail_soft alpha beta v r"
      by (auto simp add: fail_soft_def)
    with r step a mid eq show ?thesis
      by auto
  next
    case low
    with fs have xv: "w \<le> xv" "xv \<le> alpha"
      by (simp_all add: fail_soft_def)
    with Cons.prems(4,5) have "xv < B"
      by auto
    then have eq: "B' = xv" "bm2 = Some m0"
      by (simp_all add: B'_def bm2_def)
    with xv have a: "min beta B' \<le> alpha"
      by (simp add: min_le_iff_disj)
    have "M' \<le> w"
      by (auto simp add: M'_def)
    with vM' have "v \<le> w"
      by simp
    with xv have "fail_soft alpha beta v xv" "\<not> alpha < v"
      using Cons.prems(5) by (auto simp add: fail_soft_def)
    with step a eq show ?thesis
      by auto
  qed
qed

lemma fail_soft_refl: "fail_soft alpha beta v v"
  by (simp add: fail_soft_def)

lemma alpha_beta_sound:
  assumes "minimax fuel s depth mp nv0 = Some ((v, mv), nv1)" and "alpha < beta"
  shows "\<exists>r mr n2. alpha_beta fuel s depth alpha beta mp n = Some ((r, mr), n2) \<and>
           fail_soft alpha beta v r \<and> (alpha < v \<and> v < beta \<longrightarrow> mr = mv)"
  using assms
proof (induction fuel arbitrary: s depth mp nv0 v mv nv1 alpha beta n)
  case 0
  then show ?case by simp
next
  case (Suc fuel)
  show ?case
  proof (cases "depth = 0 \<or> is_terminal s")
    case True
    with Suc.prems(1) show ?thesis
      by (auto simp add: fail_soft_refl)
  next
    case False
    show ?thesis
    proof (cases mp)
      case True
      let ?rm = "\<lambda>c. minimax fuel c (depth - 1) False"
      let ?ra = "\<lambda>c a b. alpha_beta fuel c (depth - 1) a b False"
      from Suc.prems(1) False True
      have mm: "minimax_max_loop ?rm (get_successors s) NegInf None (nv0 + 1) = Some ((v, mv), nv1)"
        by (simp add: Let_def)
      have rec: "\<exists>x mx n2. ?ra c a b n = Some ((x, mx), n2) \<and> fail_soft a b w x"
        if "c \<in> snd ` set (get_successors s)" "?rm c n0 = Some ((w, mw), n1)" "a < b"
        for c n0 w mw n1 a b n
        using Suc.IH [OF that(2,3), of n] by blast
      have "\<exists>r mr n2. alpha_beta_max_loop ?ra (get_successors s) alpha beta NegInf None (n + 1)
            = Some ((r, mr), n2) \<and> fail_soft alpha beta v r \<and>
          (v < beta \<and> (alpha < v \<or> NegInf = alpha \<and> NegInf = alpha \<and> (None::int option) = None) \<longrightarrow> mr = mv)"
        by (rule alpha_beta_max_loop_sound [OF mm _ _ _ \<open>alpha < beta\<close>]) (rule rec, simp_all)
      with False True show ?thesis
        by (auto simp add: Let_def)
    next
      case mp: False
      let ?rm = "\<lambda>c. minimax fuel c (depth - 1) True"
      let ?ra = "\<lambda>c a b. alpha_beta fuel c (depth - 1) a b True"
      from Suc.prems(1) False mp
      have mm: "minimax_min_loop ?rm (get_successors s) PosInf None (nv0 + 1) = Some ((v, mv), nv1)"
        by (simp add: Let_def)
      have rec: "\<exists>x mx n2. ?ra c a b n = Some ((x, mx), n2) \<and> fail_soft a b w x"
        if "c \<in> snd ` set (get_successors s)" "?rm c n0 = Some ((w, mw), n1)" "a < b"
        for c n0 w mw n1 a b n
        using Suc.IH [OF that(2,3), of n] by blast
      have "\<exists>r mr n2. alpha_beta_min_loop ?ra (get_successors s) alpha beta PosInf None (n + 1)
            = Some ((r, mr), n2) \<and> fail_soft alpha beta v r \<and>
          (alpha < v \<and> (v < beta \<or> PosInf = beta \<and> PosInf = beta \<and> (None::int option) = None) \<longrightarrow> mr = mv)"
        by (rule alpha_beta_min_loop_sound [OF mm _ _ _ \<open>alpha < beta\<close>]) (rule rec, simp_all)
      with False mp show ?thesis
        by (auto simp add: Let_def)
    qed
  qed
qed

lemma alpha_beta_no_return:
  "current_number s \<le> 0 \<Longrightarrow> depth < 0 \<Longrightarrow> alpha_beta fuel s depth alpha beta mp nv = None"
proof (induction fuel arbitrary: s depth alpha beta mp nv)
  case 0
  show ?case by simp
next
  case (Suc fuel)
  from Suc.prems have c: "current_number (make_child s 2) \<le> 0" and d: "depth - 1 < 0"
    by (simp_all add: make_child_number)
  have "alpha_beta fuel (make_child s 2) (depth - 1) a b p n = None" for a b p n
    using c d by (rule Suc.IH)
  with Suc.prems show ?case
    by (simp add: Let_def get_successors_def is_terminal_def)
qed

lemma alpha_beta_full_window:
  assumes m: "minimax fuel s depth mp nv0 = Some ((v, mv), nv1)"
  shows "\<exists>nv2. alpha_beta fuel s depth NegInf PosInf mp nv = Some ((v, mv), nv2)"
proof -
  from minimax_finite [OF m] obtain i where v: "v = Fin i"
    by blast
  have "NegInf < PosInf"
    by (simp add: less_xint_def)
  from alpha_beta_sound [OF m this, of nv] v show ?thesis
    by (auto simp add: fail_soft_def)
qed

text \<open>
  C1: whenever minimax returns a value and a move for a state, a depth and a flag,
  alpha-beta started with the window from minus to plus infinity returns the same value
  and the same move with the same fuel; only the counters differ. Both return for enough
  fuel when the number is positive or the depth is not negative, and neither returns,
  whatever the fuel, when the number is at most zero and the depth negative.
\<close>

theorem alpha_beta_equals_minimax:
  "(minimax fuel s depth mp nv0 = Some ((v, mv), nv1) \<longrightarrow>
      (\<exists>nv2. alpha_beta fuel s depth NegInf PosInf mp nv = Some ((v, mv), nv2))) \<and>
   (0 < current_number s \<or> 0 \<le> depth \<longrightarrow>
      (\<exists>k w mw. (\<exists>n1. minimax k s depth mp nv0 = Some ((w, mw), n1)) \<and>
                (\<exists>n2. alpha_beta k s depth NegInf PosInf mp nv = Some ((w, mw), n2)))) \<and>
   (current_number s \<le> 0 \<and> depth < 0 \<longrightarrow>
      minimax fuel s depth mp nv0 = None \<and> alpha_beta fuel s depth NegInf PosInf mp nv = None)"
proof -
  have eq: "\<exists>nv2. alpha_beta k s depth NegInf PosInf mp nv = Some ((w, mw), nv2)"
    if m: "minimax k s depth mp nv0 = Some ((w, mw), n1)" for k w mw n1
    using m by (rule alpha_beta_full_window)
  have "\<exists>k. minimax k s depth mp nv0 \<noteq> None" if "0 < current_number s \<or> 0 \<le> depth"
  proof (cases "0 < current_number s")
    case True
    then have "minimax (Suc (nat (1200 - current_number s))) s depth mp nv0 \<noteq> None"
      by (intro minimax_returns_number) simp_all
    then show ?thesis by blast
  next
    case False
    with that have "minimax (Suc (nat depth)) s depth mp nv0 \<noteq> None"
      by (intro minimax_returns_depth) simp_all
    then show ?thesis by blast
  qed
  then have "\<exists>k w mw. (\<exists>n1. minimax k s depth mp nv0 = Some ((w, mw), n1)) \<and>
                (\<exists>n2. alpha_beta k s depth NegInf PosInf mp nv = Some ((w, mw), n2))"
    if "0 < current_number s \<or> 0 \<le> depth"
    using that eq by fastforce
  with eq show ?thesis
    by (auto simp add: minimax_no_return alpha_beta_no_return)
qed

theorem alpha_beta_equals_minimax_witness:
  "minimax 4 \<lparr>current_number = 40, human_score = 0, computer_score = 0, current_player = COMPUTER\<rparr> 3 True 0
     = Some ((Fin 999999, Some 4), 40) \<and>
   (\<exists>nv2. alpha_beta 4 \<lparr>current_number = 40, human_score = 0, computer_score = 0, current_player = COMPUTER\<rparr> 3
     NegInf PosInf True 0 = Some ((Fin 999999, Some 4), nv2)) \<and>
   alpha_beta 4 \<lparr>current_number = 40, human_score = 0, computer_score = 0, current_player = COMPUTER\<rparr> 3
     NegInf PosInf True 0 = Some ((Fin 999999, Some 4), 25) \<and>
   current_number \<lparr>current_number = 0, human_score = 0, computer_score = 0, current_player = HUMAN\<rparr> \<le> 0 \<and>
   minimax 3 \<lparr>current_number = 0, human_score = 0, computer_score = 0, current_player = HUMAN\<rparr> (- 1) False 0
     = None \<and>
   alpha_beta 3 \<lparr>current_number = 0, human_score = 0, computer_score = 0, current_player = HUMAN\<rparr> (- 1)
     NegInf PosInf False 0 = None"
proof -
  let ?s = "\<lparr>current_number = 40, human_score = 0, computer_score = 0, current_player = COMPUTER\<rparr>"
  let ?z = "\<lparr>current_number = 0, human_score = 0, computer_score = 0, current_player = HUMAN\<rparr>"
  have mm: "minimax 4 ?s 3 True 0 = Some ((Fin 999999, Some 4), 40)"
    by code_simp
  have ab: "alpha_beta 4 ?s 3 NegInf PosInf True 0 = Some ((Fin 999999, Some 4), 25)"
    by code_simp
  from mm alpha_beta_equals_minimax [of 4 ?s 3 True 0 "Fin 999999" "Some 4" 40 0]
  have "\<exists>nv2. alpha_beta 4 ?s 3 NegInf PosInf True 0 = Some ((Fin 999999, Some 4), nv2)"
    by blast
  moreover have z: "current_number ?z \<le> 0" "(- 1 :: int) < 0"
    by simp_all
  with alpha_beta_equals_minimax [of 3 ?z "- 1" False 0 _ _ _ 0]
  have "minimax 3 ?z (- 1) False 0 = None \<and> alpha_beta 3 ?z (- 1) NegInf PosInf False 0 = None"
    by blast
  ultimately show ?thesis
    using mm ab z by blast
qed

section \<open>The counter of visited nodes\<close>





















section \<open>Choice of the algorithm\<close>

text \<open>
  C10: \<open>computer_move\<close> runs minimax only for the string \<open>Minimax\<close>; every other
  algorithm value, the lowercase tags \<open>minimax\<close> and \<open>alpha-beta\<close> included, runs
  alpha-beta with the window from minus to plus infinity, and no value is rejected.
\<close>

theorem computer_move_dispatch:
  "(alg \<noteq> ''Minimax'' \<longrightarrow>
      computer_move fuel s alg depth nv =
        map_option (\<lambda>((_, move), nv'). (move, nv')) (alpha_beta fuel s depth NegInf PosInf True nv)) \<and>
   computer_move fuel s ''minimax'' depth nv =
     map_option (\<lambda>((_, move), nv'). (move, nv')) (alpha_beta fuel s depth NegInf PosInf True nv) \<and>
   computer_move fuel s ''alpha-beta'' depth nv =
     map_option (\<lambda>((_, move), nv'). (move, nv')) (alpha_beta fuel s depth NegInf PosInf True nv) \<and>
   computer_move fuel s ''Minimax'' depth nv =
     map_option (\<lambda>((_, move), nv'). (move, nv')) (minimax fuel s depth True nv)"
  by (simp add: computer_move_def)

theorem computer_move_dispatch_witness:
  "''no such algorithm'' \<noteq> ''Minimax'' \<and>
   computer_move 3 \<lparr>current_number = 8, human_score = 0, computer_score = 0, current_player = COMPUTER\<rparr>
     ''no such algorithm'' 2 0 = Some (Some 2, 9) \<and>
   computer_move 3 \<lparr>current_number = 8, human_score = 0, computer_score = 0, current_player = COMPUTER\<rparr>
     ''Minimax'' 2 0 = Some (Some 2, 13)"
proof -
  let ?s = "\<lparr>current_number = 8, human_score = 0, computer_score = 0, current_player = COMPUTER\<rparr>"
  have ne: "''no such algorithm'' \<noteq> ''Minimax''"
    by simp
  have ab: "alpha_beta 3 ?s 2 NegInf PosInf True 0 = Some ((Fin 0, Some 2), 9)"
    by code_simp
  have mm: "minimax 3 ?s 2 True 0 = Some ((Fin 0, Some 2), 13)"
    by code_simp
  from computer_move_dispatch [of "''no such algorithm''" 3 ?s 2 0] ne ab mm
  show ?thesis by simp
qed

end
